theory Spec2Isabelle
  imports Complex_Main "HOL-Library.Option_ord"
begin

section \<open>The skip list of SkipListMinimalist.js\<close>

text \<open>
  The source builds a skip list out of mutable \<open>SkipListNode\<close> objects that point at each
  other through \<open>right\<close> and \<open>down\<close>. Objects live in an explicit store: an address is a
  natural number, \<open>null\<close> is \<open>None\<close>, and \<open>new SkipListNode(...)\<close> takes the next unused
  address. Keys and payloads are integers; the numbers of the source (spans, ranks, counts)
  are unbounded integers. A \<open>TypeError\<close> is what JavaScript raises when a property of \<open>null\<close>
  or \<open>undefined\<close> is read; a loop that does not return is the value \<open>None\<close>.
\<close>

datatype error = TypeError | RangeError

record skipListNode =
  down :: "nat option"
  right :: "nat option"
  key :: "int option"
  data :: "int option"
  span_sl :: int

record pathElement =
  level :: int
  node :: nat
  rank :: int

record skipList =
  store :: "nat \<Rightarrow> skipListNode"
  fresh :: nat
  tail :: nat
  head :: nat
  topRight :: nat
  levelsCount :: int
  itemsCount :: int

definition new_SkipListNode :: "skipListNode \<Rightarrow> skipList \<Rightarrow> nat \<times> skipList" where
  "new_SkipListNode n s =
     (fresh s, s\<lparr>store := (store s)(fresh s := n), fresh := Suc (fresh s)\<rparr>)"

definition SkipList_constructor :: skipList where
  "SkipList_constructor =
     \<lparr>store = (\<lambda>_. \<lparr>down = None, right = None, key = None, data = None, span_sl = 0\<rparr>)
        (0 := \<lparr>down = None, right = None, key = None, data = None, span_sl = 0\<rparr>,
         1 := \<lparr>down = None, right = Some 0, key = None, data = None, span_sl = 1\<rparr>),
      fresh = 2, tail = 0, head = 1, topRight = 0, levelsCount = 1, itemsCount = 0\<rparr>"

subsection \<open>\<open>_findPath\<close>\<close>

partial_function (option) findPath_loop ::
  "(nat \<Rightarrow> skipListNode) \<Rightarrow> int \<Rightarrow> pathElement list \<Rightarrow> int \<Rightarrow> int \<Rightarrow> nat
     \<Rightarrow> (error + pathElement list) option" where
  "findPath_loop h k path lvl rnk nxt =
     (let path' = path @ [\<lparr>level = lvl, node = nxt, rank = rnk\<rparr>] in
      case right (h nxt) of
        None \<Rightarrow> Some (Inl TypeError)
      | Some r \<Rightarrow>
          if key (h r) \<noteq> None \<and> the (key (h r)) < k
          then findPath_loop h k path' lvl (rnk + span_sl (h nxt)) r
          else (case down (h nxt) of
                  Some d \<Rightarrow> findPath_loop h k path' (lvl - 1) rnk d
                | None \<Rightarrow> Some (Inr path')))"

declare findPath_loop.simps [code]

definition findPath :: "skipList \<Rightarrow> int \<Rightarrow> (error + pathElement list) option" where
  "findPath s k = findPath_loop (store s) k [] (levelsCount s - 1) (- 1) (head s)"

text \<open>\<open>path[path.length - 1]\<close>: \<open>undefined\<close> on an empty array.\<close>

definition lastElement :: "'a list \<Rightarrow> 'a option" where
  "lastElement xs = (if xs = [] then None else Some (last xs))"

subsection \<open>\<open>find\<close> and \<open>findRankOfKey\<close>\<close>

definition find_sl :: "skipList \<Rightarrow> int \<Rightarrow> (error + int option) option" where
  "find_sl s k =
     (case findPath s k of
        None \<Rightarrow> None
      | Some (Inl e) \<Rightarrow> Some (Inl e)
      | Some (Inr path) \<Rightarrow>
          (case lastElement path of
             None \<Rightarrow> Some (Inl TypeError)
           | Some bottomRightInPath \<Rightarrow>
               (case right (store s (node bottomRightInPath)) of
                  None \<Rightarrow> Some (Inl TypeError)
                | Some r \<Rightarrow>
                    if key (store s r) = Some k then Some (Inr (data (store s r)))
                    else Some (Inr None))))"

definition findRankOfKey :: "skipList \<Rightarrow> int \<Rightarrow> (error + int option) option" where
  "findRankOfKey s k =
     (case findPath s k of
        None \<Rightarrow> None
      | Some (Inl e) \<Rightarrow> Some (Inl e)
      | Some (Inr path) \<Rightarrow>
          (case lastElement path of
             None \<Rightarrow> Some (Inl TypeError)
           | Some bottomRightInPath \<Rightarrow>
               (case right (store s (node bottomRightInPath)) of
                  None \<Rightarrow> Some (Inl TypeError)
                | Some r \<Rightarrow>
                    if key (store s r) = Some k then Some (Inr (Some (rank bottomRightInPath + 1)))
                    else Some (Inr None))))"

subsection \<open>\<open>findByRank\<close>\<close>

partial_function (option) findByRank_loop ::
  "(nat \<Rightarrow> skipListNode) \<Rightarrow> int \<Rightarrow> int \<Rightarrow> nat \<Rightarrow> (error + nat) option" where
  "findByRank_loop h rnk rankCounter nxt =
     (if rankCounter < rnk then
        (if rankCounter + span_sl (h nxt) < rnk then
           (case right (h nxt) of
              None \<Rightarrow> Some (Inl TypeError)
            | Some r \<Rightarrow>
                if key (h r) \<noteq> None
                then findByRank_loop h rnk (rankCounter + span_sl (h nxt)) r
                else (case down (h nxt) of
                        Some d \<Rightarrow> findByRank_loop h rnk rankCounter d
                      | None \<Rightarrow> Some (Inr nxt)))
         else (case down (h nxt) of
                 Some d \<Rightarrow> findByRank_loop h rnk rankCounter d
               | None \<Rightarrow> Some (Inr nxt)))
      else Some (Inr nxt))"

declare findByRank_loop.simps [code]

definition findByRank :: "skipList \<Rightarrow> int \<Rightarrow> (error + int option) option" where
  "findByRank s rnk =
     (case findByRank_loop (store s) rnk (- 1) (head s) of
        None \<Rightarrow> None
      | Some (Inl e) \<Rightarrow> Some (Inl e)
      | Some (Inr nxt) \<Rightarrow>
          (case right (store s nxt) of
             None \<Rightarrow> Some (Inl TypeError)
           | Some r \<Rightarrow>
               if key (store s r) \<noteq> None then Some (Inr (data (store s r)))
               else Some (Inr None)))"

subsection \<open>\<open>_findInsertPath\<close>\<close>

text \<open>
  \<open>Array(n)\<close> is an array of \<open>n\<close> holes (\<open>None\<close>), and raises for a negative \<open>n\<close>.
  \<open>a[i] = v\<close> with a negative \<open>i\<close> sets a property that is no element of the array, and with
  \<open>i\<close> beyond the end it extends the array with holes. \<open>forEach\<close> skips holes.
\<close>

definition array_set :: "'a option list \<Rightarrow> int \<Rightarrow> 'a \<Rightarrow> 'a option list" where
  "array_set arr i v =
     (if i < 0 then arr
      else if nat i < length arr then arr[nat i := Some v]
      else arr @ replicate (nat i - length arr) None @ [Some v])"

definition findInsertPath :: "skipList \<Rightarrow> int \<Rightarrow> (error + pathElement option list) option" where
  "findInsertPath s k =
     (case findPath s k of
        None \<Rightarrow> None
      | Some (Inl e) \<Rightarrow> Some (Inl e)
      | Some (Inr path) \<Rightarrow>
          if levelsCount s < 0 then Some (Inl RangeError)
          else
            (let insertPath = replicate (nat (levelsCount s)) None in
             Some (Inr (rev (foldl
               (\<lambda>arr pathElement. array_set arr (level pathElement)
                  \<lparr>level = level pathElement, node = node pathElement, rank = rank pathElement\<rparr>)
               insertPath path)))))"

subsection \<open>\<open>_addLevelsAccordingToNewLevelsCount\<close> and \<open>_randomLevel\<close>\<close>

fun addLevels_loop :: "nat \<Rightarrow> skipList \<Rightarrow> skipList" where
  "addLevels_loop 0 s = s"
| "addLevels_loop (Suc n) s =
     (let (t, s1) = new_SkipListNode
            \<lparr>down = Some (topRight s), right = None, key = None, data = None, span_sl = 0\<rparr> s;
          s2 = s1\<lparr>topRight := t\<rparr>;
          (hd', s3) = new_SkipListNode
            \<lparr>down = Some (head s2), right = Some (topRight s2), key = None, data = None,
             span_sl = itemsCount s2 + 1\<rparr> s2;
          s4 = s3\<lparr>head := hd'\<rparr>
      in addLevels_loop n s4)"

definition addLevelsAccordingToNewLevelsCount :: "int \<Rightarrow> skipList \<Rightarrow> skipList" where
  "addLevelsAccordingToNewLevelsCount newLevelsCount s =
     (let numberOfNewLevels = newLevelsCount - levelsCount s in
      if numberOfNewLevels \<le> 0 then s
      else (addLevels_loop (nat numberOfNewLevels) s)
             \<lparr>levelsCount := levelsCount s + numberOfNewLevels\<rparr>)"

text \<open>
  \<open>Math.random()\<close> is a source of numbers in \<open>[0, 1)\<close>: the \<open>i\<close>-th call of one run of
  \<open>_randomLevel\<close> returns \<open>rnd i\<close>. The call is made only when \<open>level <= 32\<close> holds.
\<close>

function randomLevel_loop :: "(nat \<Rightarrow> real) \<Rightarrow> nat \<Rightarrow> int \<Rightarrow> int" where
  "randomLevel_loop rnd i lvl =
     (if lvl \<le> 32 \<and> rnd i \<ge> 0.5 then randomLevel_loop rnd (Suc i) (lvl + 1) else lvl)"
  by pat_completeness auto
termination
  by (relation "measure (\<lambda>(rnd, i, lvl). nat (33 - lvl))") auto

definition randomLevel :: "(nat \<Rightarrow> real) \<Rightarrow> int" where
  "randomLevel rnd = randomLevel_loop rnd 0 1"

subsection \<open>\<open>insert\<close>\<close>

text \<open>One call of the \<open>forEach\<close> callback of \<open>insert\<close>; the state carries \<open>lastNode\<close>.\<close>

definition insert_step ::
  "int \<Rightarrow> int \<Rightarrow> int \<Rightarrow> int \<Rightarrow> skipList \<times> nat option \<Rightarrow> pathElement option
     \<Rightarrow> skipList \<times> nat option" where
  "insert_step newLevelsCount k d insertingAtRank acc hole =
     (case hole of
        None \<Rightarrow> acc
      | Some pathElement \<Rightarrow>
          (let (s, lastNode) = acc; a = node pathElement in
           if level pathElement < newLevelsCount then
             (let (insertedNode, s1) = new_SkipListNode
                    \<lparr>down = None, right = right (store s a), key = Some k,
                     data = (if level pathElement = 0 then Some d else None),
                     span_sl = (span_sl (store s a) + 1) - (insertingAtRank - rank pathElement)\<rparr> s;
                  s2 = s1\<lparr>store := (store s1)(a := (store s1 a)\<lparr>right := Some insertedNode\<rparr>)\<rparr>;
                  s3 = s2\<lparr>store := (store s2)
                         (a := (store s2 a)\<lparr>span_sl := span_sl (store s2 a) + 1
                                                     - span_sl (store s2 insertedNode)\<rparr>)\<rparr>;
                  s4 = (case lastNode of
                          Some l \<Rightarrow> s3\<lparr>store := (store s3)
                                        (l := (store s3 l)\<lparr>down := Some insertedNode\<rparr>)\<rparr>
                        | None \<Rightarrow> s3)
              in (s4, Some insertedNode))
           else (s\<lparr>store := (store s)(a := (store s a)\<lparr>span_sl := span_sl (store s a) + 1\<rparr>)\<rparr>,
                 lastNode)))"

text \<open>
  \<open>insert_rest\<close> is the body of \<open>insert\<close> from the call of \<open>_findInsertPath\<close> on, for the tower
  height \<open>newLevelsCount\<close> that was drawn; \<open>insertWithLevel\<close> is the whole body for that height.
\<close>

definition insert_rest :: "int \<Rightarrow> int \<Rightarrow> int \<Rightarrow> skipList \<Rightarrow> (error + skipList) option" where
  "insert_rest newLevelsCount k d s =
     (case findInsertPath s k of
        None \<Rightarrow> None
      | Some (Inl e) \<Rightarrow> Some (Inl e)
      | Some (Inr insertPath) \<Rightarrow>
          (case lastElement insertPath of
             None \<Rightarrow> Some (Inl TypeError)
           | Some None \<Rightarrow> Some (Inl TypeError)
           | Some (Some bottomRight) \<Rightarrow>
               (case right (store s (node bottomRight)) of
                  None \<Rightarrow> Some (Inl TypeError)
                | Some r \<Rightarrow>
                    if key (store s r) = Some k
                    then Some (Inr (s\<lparr>store := (store s)(r := (store s r)\<lparr>data := Some d\<rparr>)\<rparr>))
                    else
                      (let insertingAtRank = rank bottomRight + 1;
                           (s', lastNode) =
                              foldl (insert_step newLevelsCount k d insertingAtRank)
                                (s, None) insertPath
                       in Some (Inr (s'\<lparr>itemsCount := itemsCount s' + 1\<rparr>))))))"

definition insertWithLevel :: "int \<Rightarrow> int \<Rightarrow> int \<Rightarrow> skipList \<Rightarrow> (error + skipList) option" where
  "insertWithLevel newLevelsCount k d s =
     insert_rest newLevelsCount k d (addLevelsAccordingToNewLevelsCount newLevelsCount s)"

definition insert_sl :: "(nat \<Rightarrow> real) \<Rightarrow> int \<Rightarrow> int \<Rightarrow> skipList \<Rightarrow> (error + skipList) option" where
  "insert_sl rnd k d s = insertWithLevel (randomLevel rnd) k d s"

subsection \<open>\<open>delete\<close>\<close>

definition delete_step :: "int \<Rightarrow> pathElement \<Rightarrow> skipList \<Rightarrow> error + skipList" where
  "delete_step k pathElement s =
     (let a = node pathElement in
      case right (store s a) of
        None \<Rightarrow> Inl TypeError
      | Some r \<Rightarrow>
          if key (store s r) = Some k then
            (let s1 = s\<lparr>store := (store s)
                        (a := (store s a)\<lparr>span_sl := span_sl (store s a) + span_sl (store s r) - 1\<rparr>)\<rparr>
             in Inr (s1\<lparr>store := (store s1)(a := (store s1 a)\<lparr>right := right (store s1 r)\<rparr>)\<rparr>))
          else Inr (s\<lparr>store := (store s)(a := (store s a)\<lparr>span_sl := span_sl (store s a) - 1\<rparr>)\<rparr>))"

fun delete_forEach :: "int \<Rightarrow> pathElement option list \<Rightarrow> skipList \<Rightarrow> error + skipList" where
  "delete_forEach k [] s = Inr s"
| "delete_forEach k (None # rest) s = delete_forEach k rest s"
| "delete_forEach k (Some pathElement # rest) s =
     (case delete_step k pathElement s of
        Inl e \<Rightarrow> Inl e
      | Inr s' \<Rightarrow> delete_forEach k rest s')"

definition delete :: "int \<Rightarrow> skipList \<Rightarrow> (error + skipList) option" where
  "delete k s =
     (case findInsertPath s k of
        None \<Rightarrow> None
      | Some (Inl e) \<Rightarrow> Some (Inl e)
      | Some (Inr insertPath) \<Rightarrow> Some (delete_forEach k insertPath s))"

subsection \<open>Sequences of public operations\<close>

text \<open>
  A mutation of the index is an \<open>insert\<close>, with the numbers \<open>Math.random()\<close> returns during
  that call, or a \<open>delete\<close>. A run starts at the constructor's index and stops at the first
  error, as the exception would.
\<close>

datatype operation = Insert int int "nat \<Rightarrow> real" | Delete int

fun perform :: "operation \<Rightarrow> skipList \<Rightarrow> (error + skipList) option" where
  "perform (Insert k d rnd) s = insert_sl rnd k d s"
| "perform (Delete k) s = delete k s"

fun run :: "operation list \<Rightarrow> skipList \<Rightarrow> (error + skipList) option" where
  "run [] s = Some (Inr s)"
| "run (x # xs) s =
     (case perform x s of
        None \<Rightarrow> None
      | Some (Inl e) \<Rightarrow> Some (Inl e)
      | Some (Inr s') \<Rightarrow> run xs s')"

definition after :: "operation list \<Rightarrow> (skipList \<Rightarrow> (error + 'a) option) \<Rightarrow> (error + 'a) option" where
  "after ops q =
     (case run ops SkipList_constructor of
        None \<Rightarrow> None
      | Some (Inl e) \<Rightarrow> Some (Inl e)
      | Some (Inr s) \<Rightarrow> q s)"

subsection \<open>The queries as state transformers\<close>

text \<open>
  To say what a call leaves of the index, \<open>_findPath\<close>, \<open>find\<close>, \<open>findRankOfKey\<close> and
  \<open>findByRank\<close> are translated a second time, statement by statement, as transformers of
  the index: an action takes the index before it and returns its value together with the
  index after it, or the exception it raises. \<open>this_field\<close> reads a field of \<open>this\<close>,
  \<open>get_field\<close> reads a property of a node, \<open>deref\<close> is the \<open>TypeError\<close> of a property read
  through \<open>null\<close>, and \<open>set_field\<close> is an assignment to a property of a node. The body of
  the \<open>forEach\<close> loop of \<open>delete\<close>, translated the same way, has three assignments; the
  four query methods have none.
\<close>

type_synonym 'a action = "skipList \<Rightarrow> (error + 'a \<times> skipList) option"

definition return_a :: "'a \<Rightarrow> 'a action" where
  "return_a v s = Some (Inr (v, s))"

definition raise_a :: "error \<Rightarrow> 'a action" where
  "raise_a e s = Some (Inl e)"

definition bind_a :: "'a action \<Rightarrow> ('a \<Rightarrow> 'b action) \<Rightarrow> 'b action" where
  "bind_a m f s =
     (case m s of
        None \<Rightarrow> None
      | Some (Inl e) \<Rightarrow> Some (Inl e)
      | Some (Inr (v, s')) \<Rightarrow> f v s')"

definition this_field :: "(skipList \<Rightarrow> 'a) \<Rightarrow> 'a action" where
  "this_field f s = Some (Inr (f s, s))"

definition get_field :: "(skipListNode \<Rightarrow> 'a) \<Rightarrow> nat \<Rightarrow> 'a action" where
  "get_field f a s = Some (Inr (f (store s a), s))"

definition set_field :: "(skipListNode \<Rightarrow> skipListNode) \<Rightarrow> nat \<Rightarrow> unit action" where
  "set_field upd a s = Some (Inr ((), s\<lparr>store := (store s)(a := upd (store s a))\<rparr>))"

definition deref :: "nat option \<Rightarrow> nat action" where
  "deref r = (case r of None \<Rightarrow> raise_a TypeError | Some a \<Rightarrow> return_a a)"

lemma bind_a_mono [partial_function_mono]:
  assumes "\<And>v s'. mono_option (\<lambda>f. C f v s')"
  shows "mono_option (\<lambda>f. bind_a m (C f) s)"
proof (cases "m s")
  case None
  then show ?thesis by (simp add: bind_a_def option.const_mono)
next
  case (Some x)
  show ?thesis
  proof (cases x)
    case (Inl e)
    with Some show ?thesis by (simp add: bind_a_def option.const_mono)
  next
    case (Inr p)
    obtain v s' where "p = (v, s')" by (cases p)
    with Some Inr assms[of v s'] show ?thesis by (simp add: bind_a_def)
  qed
qed

lemma if_a_mono [partial_function_mono]:
  assumes "mono_option (\<lambda>f. A f s)" and "mono_option (\<lambda>f. B f s)"
  shows "mono_option (\<lambda>f. (if c then A f else B f) s)"
  using assms by (cases c) simp_all

lemma case_option_a_mono [partial_function_mono]:
  assumes "mono_option (\<lambda>f. A f s)" and "\<And>x. mono_option (\<lambda>f. B f x s)"
  shows "mono_option (\<lambda>f. (case d of None \<Rightarrow> A f | Some x \<Rightarrow> B f x) s)"
  using assms by (cases d) simp_all

text \<open>The loop of \<open>_findPath\<close>, one pass per call, and \<open>_findPath\<close>.\<close>

partial_function (option) findPath_while ::
  "int \<Rightarrow> pathElement list \<Rightarrow> int \<Rightarrow> int \<Rightarrow> nat \<Rightarrow> pathElement list action" where
  "findPath_while k path lvl rnk nxt s =
     bind_a (return_a (path @ [\<lparr>level = lvl, node = nxt, rank = rnk\<rparr>])) (\<lambda>path'.
     bind_a (get_field right nxt) (\<lambda>r.
     bind_a (deref r) (\<lambda>r'.
     bind_a (get_field key r') (\<lambda>rkey.
       if rkey \<noteq> None \<and> the rkey < k
       then bind_a (get_field span_sl nxt) (\<lambda>sp. findPath_while k path' lvl (rnk + sp) r')
       else bind_a (get_field down nxt) (\<lambda>d.
              case d of
                Some d' \<Rightarrow> findPath_while k path' (lvl - 1) rnk d'
              | None \<Rightarrow> return_a path'))))) s"

definition findPath_a :: "int \<Rightarrow> pathElement list action" where
  "findPath_a k =
     bind_a (this_field levelsCount) (\<lambda>n.
     bind_a (this_field head) (\<lambda>h. findPath_while k [] (n - 1) (- 1) h))"

text \<open>\<open>path[path.length - 1].node.right\<close>, read by \<open>find\<close> and \<open>findRankOfKey\<close>.\<close>

definition bottomRight_right :: "pathElement list \<Rightarrow> (pathElement \<times> nat) action" where
  "bottomRight_right path =
     (case lastElement path of
        None \<Rightarrow> raise_a TypeError
      | Some bottomRightInPath \<Rightarrow>
          bind_a (get_field right (node bottomRightInPath)) (\<lambda>r.
          bind_a (deref r) (\<lambda>r'. return_a (bottomRightInPath, r'))))"

definition find_a :: "int \<Rightarrow> int option action" where
  "find_a k =
     bind_a (findPath_a k) (\<lambda>path.
     bind_a (bottomRight_right path) (\<lambda>(bottomRightInPath, r).
     bind_a (get_field key r) (\<lambda>rkey.
       if rkey = Some k then get_field data r else return_a None)))"

definition findRankOfKey_a :: "int \<Rightarrow> int option action" where
  "findRankOfKey_a k =
     bind_a (findPath_a k) (\<lambda>path.
     bind_a (bottomRight_right path) (\<lambda>(bottomRightInPath, r).
     bind_a (get_field key r) (\<lambda>rkey.
       if rkey = Some k then return_a (Some (rank bottomRightInPath + 1)) else return_a None)))"

text \<open>The loop of \<open>findByRank\<close>, one pass per call, and \<open>findByRank\<close>.\<close>

partial_function (option) findByRank_while :: "int \<Rightarrow> int \<Rightarrow> nat \<Rightarrow> nat action" where
  "findByRank_while rnk rankCounter nxt s =
     (if rankCounter < rnk then
        bind_a (get_field span_sl nxt) (\<lambda>sp.
          if rankCounter + sp < rnk then
            bind_a (get_field right nxt) (\<lambda>r.
            bind_a (deref r) (\<lambda>r'.
            bind_a (get_field key r') (\<lambda>rkey.
              if rkey \<noteq> None then findByRank_while rnk (rankCounter + sp) r'
              else bind_a (get_field down nxt) (\<lambda>d.
                     case d of
                       Some d' \<Rightarrow> findByRank_while rnk rankCounter d'
                     | None \<Rightarrow> return_a nxt))))
          else bind_a (get_field down nxt) (\<lambda>d.
                 case d of
                   Some d' \<Rightarrow> findByRank_while rnk rankCounter d'
                 | None \<Rightarrow> return_a nxt)) s
      else return_a nxt s)"

definition findByRank_a :: "int \<Rightarrow> int option action" where
  "findByRank_a rnk =
     bind_a (this_field head) (\<lambda>h.
     bind_a (findByRank_while rnk (- 1) h) (\<lambda>nxt.
     bind_a (get_field right nxt) (\<lambda>r.
     bind_a (deref r) (\<lambda>r'.
     bind_a (get_field key r') (\<lambda>rkey.
       if rkey \<noteq> None then get_field data r' else return_a None)))))"

text \<open>The body of the \<open>forEach\<close> loop of \<open>delete\<close>.\<close>

definition delete_step_a :: "int \<Rightarrow> pathElement \<Rightarrow> unit action" where
  "delete_step_a k pathElement =
     bind_a (get_field right (node pathElement)) (\<lambda>r.
     bind_a (deref r) (\<lambda>r'.
     bind_a (get_field key r') (\<lambda>rkey.
       if rkey = Some k then
         bind_a (get_field span_sl (node pathElement)) (\<lambda>sp.
         bind_a (get_field span_sl r') (\<lambda>rsp.
         bind_a (set_field (\<lambda>n. n\<lparr>span_sl := sp + rsp - 1\<rparr>) (node pathElement)) (\<lambda>_.
         bind_a (get_field right r') (\<lambda>rr.
         set_field (\<lambda>n. n\<lparr>right := rr\<rparr>) (node pathElement)))))
       else
         bind_a (get_field span_sl (node pathElement)) (\<lambda>sp.
         set_field (\<lambda>n. n\<lparr>span_sl := sp - 1\<rparr>) (node pathElement)))))"

text \<open>A query is a call of \<open>find\<close>, \<open>findRankOfKey\<close> or \<open>findByRank\<close>.\<close>

datatype query = Find int | FindRankOfKey int | FindByRank int

fun answer :: "query \<Rightarrow> skipList \<Rightarrow> (error + int option) option" where
  "answer (Find k) s = find_sl s k"
| "answer (FindRankOfKey k) s = findRankOfKey s k"
| "answer (FindByRank r) s = findByRank s r"

fun call :: "query \<Rightarrow> int option action" where
  "call (Find k) = find_a k"
| "call (FindRankOfKey k) = findRankOfKey_a k"
| "call (FindByRank r) = findByRank_a r"



section \<open>The shape of a reachable index\<close>

text \<open>
  A reachable index is a stack of lanes, the top level first. A lane is the list of the
  addresses on one level from the head on, and the address of the level's terminator. The
  definitions below say when a store holds such a stack, and describe the store after
  the \<open>forEach\<close> loops of \<open>insert\<close> and \<open>delete\<close>.
\<close>

type_synonym heap = "nat \<Rightarrow> skipListNode"

type_synonym lane = "nat list \<times> nat"

text \<open>
  The nodes \<open>ns\<close> are linked by \<open>right\<close> in this order, the last of them to \<open>t\<close>.
\<close>

fun chain :: "heap \<Rightarrow> nat list \<Rightarrow> nat \<Rightarrow> bool" where
  "chain h [] t = True"
| "chain h (a # ns) t = (right (h a) = Some (case ns of [] \<Rightarrow> t | b # _ \<Rightarrow> b) \<and> chain h ns t)"

text \<open>
  A lane starts at a head without key, carries strictly increasing keys and ends in a
  terminator without key and without right neighbour.
\<close>

definition lane_ok :: "heap \<Rightarrow> lane \<Rightarrow> bool" where
  "lane_ok h l = (fst l \<noteq> [] \<and> key (h (hd (fst l))) = None
     \<and> sorted_wrt (<) (map (\<lambda>a. key (h a)) (fst l))
     \<and> chain h (fst l) (snd l) \<and> right (h (snd l)) = None \<and> key (h (snd l)) = None)"

text \<open>
  Every node of the upper lane has below it a node of the lower lane with the same key, and
  the upper terminator has the lower terminator below it.
\<close>

definition links :: "heap \<Rightarrow> lane \<Rightarrow> lane \<Rightarrow> bool" where
  "links h u l = ((\<forall>a \<in> set (fst u). \<exists>d \<in> set (fst l). down (h a) = Some d \<and> key (h d) = key (h a))
     \<and> down (h (snd u)) = Some (snd l))"

text \<open>
  A stack of lanes, top level first; the nodes of the bottom lane have nothing below them.
\<close>

fun lanes_ok :: "heap \<Rightarrow> lane list \<Rightarrow> bool" where
  "lanes_ok h [] = False"
| "lanes_ok h (u # rest) = (lane_ok h u \<and>
     (case rest of [] \<Rightarrow> (\<forall>a \<in> set (fst u). down (h a) = None) \<and> down (h (snd u)) = None
      | l # _ \<Rightarrow> links h u l \<and> lanes_ok h rest))"

text \<open>
  The approach point of key \<open>k\<close> on a lane: the last node whose key is below \<open>k\<close>.
\<close>

definition approach :: "heap \<Rightarrow> int \<Rightarrow> lane \<Rightarrow> nat \<Rightarrow> bool" where
  "approach h k l a = (a \<in> set (fst l) \<and> key (h a) < Some k
     \<and> (\<exists>b. right (h a) = Some b \<and> (key (h b) = None \<or> Some k \<le> key (h b))))"

definition fill :: "pathElement option list \<Rightarrow> pathElement \<Rightarrow> pathElement option list" where
  "fill arr pe = array_set arr (level pe) \<lparr>level = level pe, node = node pe, rank = rank pe\<rparr>"

text \<open>
  What \<open>_findPath\<close> returns on a stack of lanes: \<open>pes\<close> holds the approach point of every
  level, top first, and \<open>tr\<close>, the whole path, ends with the bottom one; \<open>_findInsertPath\<close>
  turns \<open>tr\<close> into \<open>pes\<close>.
\<close>

definition trace_ok :: "heap \<Rightarrow> int \<Rightarrow> lane list \<Rightarrow> pathElement list \<Rightarrow> pathElement list \<Rightarrow> bool" where
  "trace_ok h k lv tr pes = (length pes = length lv
     \<and> list_all2 (\<lambda>l pe. approach h k l (node pe)) lv pes
     \<and> map level pes = map int (rev [0..<length lv])
     \<and> tr \<noteq> [] \<and> last tr = last pes
     \<and> (\<forall>arr. length lv \<le> length arr \<longrightarrow>
           foldl fill arr tr = map Some (rev pes) @ drop (length lv) arr))"

text \<open>
  \<open>cnt K ko\<close> counts the keys of \<open>K\<close> up to \<open>ko\<close>. The span of a node is the difference of
  the counts at its right neighbour and at itself; when \<open>ex\<close> holds, the span of the last
  node of a lane leads to the count of all keys plus 1. The rank of a path element is the
  count at its node minus 1.
\<close>

definition cnt :: "int list \<Rightarrow> int option \<Rightarrow> int" where
  "cnt K ko = int (length (filter (\<lambda>y. Some y \<le> ko) K))"

fun spans_ok :: "bool \<Rightarrow> heap \<Rightarrow> int list \<Rightarrow> nat list \<Rightarrow> bool" where
  "spans_ok ex h K [] = True"
| "spans_ok ex h K [a] = (ex \<longrightarrow> span_sl (h a) = int (length K) + 1 - cnt K (key (h a)))"
| "spans_ok ex h K (a # b # ns) =
     (span_sl (h a) = cnt K (key (h b)) - cnt K (key (h a)) \<and> spans_ok ex h K (b # ns))"

definition ranks_ok :: "heap \<Rightarrow> int list \<Rightarrow> pathElement list \<Rightarrow> bool" where
  "ranks_ok h K pes = (\<forall>pe \<in> set pes. rank pe = cnt K (key (h (node pe))) - 1)"

text \<open>
  The store after one pass of the \<open>forEach\<close> loop of \<open>insert\<close> that creates node \<open>n\<close>, and the
  fields the whole loop leaves as they were.
\<close>

definition ins_store :: "int \<Rightarrow> int \<Rightarrow> int \<Rightarrow> pathElement \<Rightarrow> heap \<Rightarrow> nat \<Rightarrow> nat option \<Rightarrow> heap" where
  "ins_store k d iar pe h n lastNode =
     (\<lambda>x. if x = n then
             \<lparr>down = None, right = right (h (node pe)), key = Some k,
              data = (if level pe = 0 then Some d else None),
              span_sl = (span_sl (h (node pe)) + 1) - (iar - rank pe)\<rparr>
           else if x = node pe then
             (h x)\<lparr>down := (if lastNode = Some x then Some n else down (h x)),
                   right := Some n, span_sl := iar - rank pe\<rparr>
           else if lastNode = Some x then (h x)\<lparr>down := Some n\<rparr>
           else h x)"

definition ins_frame :: "int \<Rightarrow> int \<Rightarrow> skipList \<Rightarrow> nat option \<Rightarrow> pathElement list \<Rightarrow> skipList \<Rightarrow> bool" where
  "ins_frame H k sc lastNode pes s' =
    (fresh s' = fresh sc + length (filter (\<lambda>pe. level pe < H) pes)
     \<and> head s' = head sc \<and> topRight s' = topRight sc \<and> tail s' = tail sc
     \<and> levelsCount s' = levelsCount sc \<and> itemsCount s' = itemsCount sc
     \<and> (\<forall>x. x < fresh sc \<longrightarrow> key (store s' x) = key (store sc x) \<and> data (store s' x) = data (store sc x))
     \<and> (\<forall>x. x < fresh sc \<longrightarrow> x \<notin> node ` set pes \<longrightarrow>
            right (store s' x) = right (store sc x) \<and> span_sl (store s' x) = span_sl (store sc x))
     \<and> (\<forall>x. x < fresh sc \<longrightarrow> lastNode \<noteq> Some x \<longrightarrow> down (store s' x) = down (store sc x))
     \<and> (\<forall>x. fresh sc \<le> x \<longrightarrow> x < fresh s' \<longrightarrow> key (store s' x) = Some k
            \<and> down (store s' x) = (if Suc x < fresh s' then Some (Suc x) else None))
     \<and> (\<forall>l. lastNode = Some l \<longrightarrow>
            down (store s' l) = (if fresh sc < fresh s' then Some (fresh sc) else down (store sc l))))"

fun ins_after :: "nat \<Rightarrow> nat \<Rightarrow> nat list \<Rightarrow> nat list" where
  "ins_after a n [] = []"
| "ins_after a n (x # xs) = (if x = a then x # n # xs else x # ins_after a n xs)"

definition nodes :: "lane \<Rightarrow> nat set" where
  "nodes l = set (fst l) \<union> {snd l}"

definition bottom_ok :: "heap \<Rightarrow> lane \<Rightarrow> bool" where
  "bottom_ok h l = ((\<forall>a \<in> set (fst l). down (h a) = None) \<and> down (h (snd l)) = None)"

definition ins_at :: "int \<Rightarrow> int \<Rightarrow> int \<Rightarrow> skipList \<Rightarrow> pathElement list \<Rightarrow> nat \<Rightarrow> skipList \<Rightarrow> bool" where
  "ins_at H d iar sc pes i s' =
    (let pe = pes ! i; a = node pe;
         n = fresh sc + length (filter (\<lambda>pe. level pe < H) (take i pes)) in
     if level pe < H then
       right (store s' a) = Some n \<and> span_sl (store s' a) = iar - rank pe
       \<and> right (store s' n) = right (store sc a)
       \<and> span_sl (store s' n) = span_sl (store sc a) + 1 - (iar - rank pe)
       \<and> data (store s' n) = (if level pe = 0 then Some d else None)
     else right (store s' a) = right (store sc a) \<and> span_sl (store s' a) = span_sl (store sc a) + 1)"

text \<open>
  The index \<open>s\<close> consists of the lanes \<open>lv\<close>: they are well linked, their nodes are
  allocated, no node is on two lanes, \<open>head\<close> and \<open>topRight\<close> are the ends of the top lane,
  and every node of the bottom lane but the head carries a payload. The stored pairs are
  read off the bottom lane.
\<close>

definition wf :: "skipList \<Rightarrow> lane list \<Rightarrow> bool" where
  "wf s lv = (lanes_ok (store s) lv
     \<and> (\<forall>l \<in> set lv. snd l \<notin> set (fst l) \<and> (\<forall>x \<in> nodes l. x < fresh s))
     \<and> (\<forall>i j. i < j \<longrightarrow> j < length lv \<longrightarrow> nodes (lv ! i) \<inter> nodes (lv ! j) = {})
     \<and> head s = hd (fst (hd lv)) \<and> topRight s = snd (hd lv)
     \<and> levelsCount s = int (length lv)
     \<and> (\<forall>x \<in> set (tl (fst (last lv))). data (store s x) \<noteq> None))"

definition content :: "heap \<Rightarrow> lane list \<Rightarrow> (int \<times> int) list" where
  "content h lv = map (\<lambda>x. (the (key (h x)), the (data (h x)))) (tl (fst (last lv)))"

definition lane_keys :: "heap \<Rightarrow> lane \<Rightarrow> int option set" where
  "lane_keys h l = (\<lambda>x. key (h x)) ` set (fst l)"

definition new_node :: "int \<Rightarrow> skipList \<Rightarrow> pathElement list \<Rightarrow> nat \<Rightarrow> nat" where
  "new_node H s pes i = fresh s + length (filter (\<lambda>pe. level pe < H) (take i pes))"

definition ins_lanes :: "int \<Rightarrow> skipList \<Rightarrow> lane list \<Rightarrow> pathElement list \<Rightarrow> lane list" where
  "ins_lanes H s lv pes =
     map (\<lambda>i. if level (pes ! i) < H
              then (ins_after (node (pes ! i)) (new_node H s pes i) (fst (lv ! i)), snd (lv ! i))
              else lv ! i) [0..<length lv]"

definition ins_ctx ::
  "int \<Rightarrow> int \<Rightarrow> int \<Rightarrow> int \<Rightarrow> skipList \<Rightarrow> lane list \<Rightarrow> pathElement list \<Rightarrow> skipList \<Rightarrow> bool" where
  "ins_ctx H k d iar s lv pes s' =
     (wf s lv \<and> 1 \<le> H \<and> H \<le> int (length lv) \<and> length pes = length lv
      \<and> (\<forall>i < length lv. approach (store s) k (lv ! i) (node (pes ! i))
            \<and> level (pes ! i) = int (length lv - 1 - i))
      \<and> Some k \<notin> lane_keys (store s) (last lv)
      \<and> ins_frame H k s None pes s' \<and> (\<forall>i < length lv. ins_at H d iar s pes i s'))"

text \<open>
  The index as the specification describes it: the stored pairs in increasing key order.
  \<open>insert\<close> adds a pair or replaces the payload of a stored key, \<open>delete\<close> removes the pair
  of a key.
\<close>

fun model_insert :: "int \<Rightarrow> int \<Rightarrow> (int \<times> int) list \<Rightarrow> (int \<times> int) list" where
  "model_insert k d [] = [(k, d)]"
| "model_insert k d (e # al) =
     (if k < fst e then (k, d) # e # al
      else if k = fst e then (k, d) # al
      else e # model_insert k d al)"

definition model_delete :: "int \<Rightarrow> (int \<times> int) list \<Rightarrow> (int \<times> int) list" where
  "model_delete k al = filter (\<lambda>e. fst e \<noteq> k) al"

definition entry :: "heap \<Rightarrow> nat \<Rightarrow> int \<times> int" where
  "entry h x = (the (key (h x)), the (data (h x)))"

text \<open>
  The invariant of the index: well-formed lanes and, when \<open>sp\<close> holds, spans that agree
  with the stored keys on every lane; when \<open>ex\<close> holds as well, \<open>itemsCount\<close> is the number
  of stored pairs.
\<close>

definition inv :: "bool \<Rightarrow> bool \<Rightarrow> skipList \<Rightarrow> lane list \<Rightarrow> bool" where
  "inv sp ex s lv = (wf s lv
     \<and> (sp \<longrightarrow> (\<forall>l \<in> set lv. spans_ok ex (store s) (map fst (content (store s) lv)) (fst l)))
     \<and> (sp \<and> ex \<longrightarrow> itemsCount s = int (length (content (store s) lv))))"

text \<open>One pass of the loop of \<open>_addLevelsAccordingToNewLevelsCount\<close>.\<close>

definition addLevel :: "skipList \<Rightarrow> skipList" where
  "addLevel s = s\<lparr>store := (store s)
       (fresh s := \<lparr>down = Some (topRight s), right = None, key = None, data = None, span_sl = 0\<rparr>,
        Suc (fresh s) := \<lparr>down = Some (head s), right = Some (fresh s), key = None, data = None,
                           span_sl = itemsCount s + 1\<rparr>),
     fresh := Suc (Suc (fresh s)), topRight := fresh s, head := Suc (fresh s)\<rparr>"

text \<open>
  What \<open>delete\<close> of key \<open>k\<close> does to an approach point \<open>a\<close>, and the index after the whole
  loop over the approach points \<open>pes\<close>.
\<close>

definition del_node :: "int \<Rightarrow> heap \<Rightarrow> nat \<Rightarrow> skipListNode" where
  "del_node k h a =
     (case right (h a) of
        None \<Rightarrow> h a
      | Some b \<Rightarrow>
          if key (h b) = Some k
          then (h a)\<lparr>span_sl := span_sl (h a) + span_sl (h b) - 1, right := right (h b)\<rparr>
          else (h a)\<lparr>span_sl := span_sl (h a) - 1\<rparr>)"

definition del_frame :: "int \<Rightarrow> skipList \<Rightarrow> pathElement list \<Rightarrow> skipList \<Rightarrow> bool" where
  "del_frame k sc pes s' =
     (fresh s' = fresh sc \<and> head s' = head sc \<and> topRight s' = topRight sc \<and> tail s' = tail sc
      \<and> levelsCount s' = levelsCount sc \<and> itemsCount s' = itemsCount sc
      \<and> (\<forall>x. store s' x = (if x \<in> node ` set pes then del_node k (store sc) x else store sc x)))"

definition del_lanes :: "int \<Rightarrow> heap \<Rightarrow> lane list \<Rightarrow> lane list" where
  "del_lanes k h lv = map (\<lambda>l. (filter (\<lambda>x. key (h x) \<noteq> Some k) (fst l), snd l)) lv"

text \<open>
  The stored pairs after a sequence of operations, by the specification; the sequences in
  which every delete is of a key stored at that time; and the sequences of inserts.
\<close>

fun model_step :: "operation \<Rightarrow> (int \<times> int) list \<Rightarrow> (int \<times> int) list" where
  "model_step (Insert k d rnd) al = model_insert k d al"
| "model_step (Delete k) al = model_delete k al"

fun model_run :: "operation list \<Rightarrow> (int \<times> int) list \<Rightarrow> (int \<times> int) list" where
  "model_run [] al = al"
| "model_run (x # xs) al = model_run xs (model_step x al)"

definition model :: "operation list \<Rightarrow> (int \<times> int) list" where
  "model ops = model_run ops []"

fun deletes_stored :: "operation list \<Rightarrow> (int \<times> int) list \<Rightarrow> bool" where
  "deletes_stored [] al = True"
| "deletes_stored (Insert k d rnd # xs) al = deletes_stored xs (model_insert k d al)"
| "deletes_stored (Delete k # xs) al = (k \<in> fst ` set al \<and> deletes_stored xs (model_delete k al))"

fun inserts_only :: "operation list \<Rightarrow> bool" where
  "inserts_only [] = True"
| "inserts_only (Insert k d rnd # xs) = inserts_only xs"
| "inserts_only (Delete k # xs) = False"

text \<open>The nodes a traversal can stand on, and the terminators of the levels.\<close>

inductive_set on_chain :: "skipList \<Rightarrow> nat set" for s :: skipList where
  head: "head s \<in> on_chain s"
| right: "a \<in> on_chain s \<Longrightarrow> right (store s a) = Some b \<Longrightarrow> b \<in> on_chain s"
| down: "a \<in> on_chain s \<Longrightarrow> down (store s a) = Some b \<Longrightarrow> b \<in> on_chain s"

inductive_set terminators :: "skipList \<Rightarrow> nat set" for s :: skipList where
  top: "topRight s \<in> terminators s"
| below: "t \<in> terminators s \<Longrightarrow> down (store s t) = Some t' \<Longrightarrow> t' \<in> terminators s"

text \<open>
  The sums of spans the invariant of the index speaks of. \<open>levelSpanSum h acc a\<close> adds to
  \<open>acc\<close> the spans met on the traversal of a level from node \<open>a\<close> to the terminator, the node
  whose \<open>right\<close> link is null; \<open>sumSpans h acc a b\<close> adds the spans met from node \<open>a\<close> up to,
  and without, node \<open>b\<close>. Neither returns when the traversal does not end, and the second
  has no value when the traversal ends before it meets \<open>b\<close>. The levels are entered at
  the head and at the nodes below it.
\<close>

partial_function (option) levelSpanSum :: "(nat \<Rightarrow> skipListNode) \<Rightarrow> int \<Rightarrow> nat \<Rightarrow> int option" where
  "levelSpanSum h acc a =
     (case right (h a) of
        None \<Rightarrow> Some acc
      | Some b \<Rightarrow> levelSpanSum h (acc + span_sl (h a)) b)"

declare levelSpanSum.simps [code]

partial_function (option) sumSpans :: "(nat \<Rightarrow> skipListNode) \<Rightarrow> int \<Rightarrow> nat \<Rightarrow> nat \<Rightarrow> int option" where
  "sumSpans h acc a b =
     (if a = b then Some acc
      else case right (h a) of
             None \<Rightarrow> None
           | Some c \<Rightarrow> sumSpans h (acc + span_sl (h a)) c b)"

declare sumSpans.simps [code]

inductive_set level_heads :: "skipList \<Rightarrow> nat set" for s :: skipList where
  top: "head s \<in> level_heads s"
| below: "a \<in> level_heads s \<Longrightarrow> down (store s a) = Some a' \<Longrightarrow> a' \<in> level_heads s"

text \<open>
  Two stores agree on the links, keys and spans of the nodes of the lanes \<open>lv\<close>.
\<close>

definition agree :: "heap \<Rightarrow> heap \<Rightarrow> lane list \<Rightarrow> bool" where
  "agree h h' lv = (\<forall>l \<in> set lv. \<forall>x \<in> nodes l.
      right (h' x) = right (h x) \<and> key (h' x) = key (h x)
      \<and> span_sl (h' x) = span_sl (h x) \<and> down (h' x) = down (h x))"

text \<open>The result \<open>r\<close> of a computation on the index \<open>s\<close>, returned with \<open>s\<close>.\<close>

definition with_index :: "(error + 'a) option \<Rightarrow> 'a action" where
  "with_index r s =
     (case r of
        None \<Rightarrow> None
      | Some (Inl e) \<Rightarrow> Some (Inl e)
      | Some (Inr v) \<Rightarrow> Some (Inr (v, s)))"

section \<open>Lemmas\<close>

lemma randomLevel_loop_bounds:
  "1 \<le> lvl \<Longrightarrow> lvl \<le> 33 \<Longrightarrow>
     1 \<le> randomLevel_loop rnd i lvl \<and> randomLevel_loop rnd i lvl \<le> 33"
proof (induction rnd i lvl rule: randomLevel_loop.induct)
  case (1 rnd i lvl)
  show ?case
  proof (cases "lvl \<le> 32 \<and> rnd i \<ge> 0.5")
    case True
    with "1.IH" have "1 \<le> randomLevel_loop rnd (Suc i) (lvl + 1)
        \<and> randomLevel_loop rnd (Suc i) (lvl + 1) \<le> 33"
      using "1.prems" by simp
    with True show ?thesis by (subst (1 2) randomLevel_loop.simps) simp
  next
    case False
    with "1.prems" show ?thesis by (subst (1 2) randomLevel_loop.simps) auto
  qed
qed

lemma randomLevel_bounds: "1 \<le> randomLevel rnd \<and> randomLevel rnd \<le> 33"
  unfolding randomLevel_def by (rule randomLevel_loop_bounds) simp_all

lemma chain_mid:
  "chain h (pre @ a # post) t \<Longrightarrow> right (h a) = Some (case post of [] \<Rightarrow> t | b # _ \<Rightarrow> b)"
  by (induction pre) (auto split: list.splits)

lemma fill_eq: "fill arr pe = array_set arr (level pe) pe"
  by (cases pe) (simp add: fill_def)

lemma trace_ok_single:
  assumes "approach h k l a"
  shows "trace_ok h k [l] [\<lparr>level = 0, node = a, rank = r\<rparr>] [\<lparr>level = 0, node = a, rank = r\<rparr>]"
proof -
  have "\<And>arr::pathElement option list. 1 \<le> length arr \<Longrightarrow>
      array_set arr 0 \<lparr>level = 0, node = a, rank = r\<rparr> = Some \<lparr>level = 0, node = a, rank = r\<rparr> # drop 1 arr"
    by (case_tac arr) (auto simp: array_set_def)
  then show ?thesis using assms by (simp add: trace_ok_def fill_eq)
qed

lemma trace_ok_right:
  assumes "trace_ok h k (u # rest) tr pes" "level pe = int (length rest)"
  shows "trace_ok h k (u # rest) (pe # tr) pes"
proof -
  have "\<And>arr::pathElement option list. Suc (length rest) \<le> length arr \<Longrightarrow>
      drop (Suc (length rest)) (array_set arr (int (length rest)) pe) = drop (Suc (length rest)) arr
      \<and> length (array_set arr (int (length rest)) pe) = length arr"
    by (auto simp: array_set_def)
  then show ?thesis using assms by (auto simp: trace_ok_def fill_eq)
qed

lemma trace_ok_down:
  assumes "trace_ok h k rest tr pes" "level pe = int (length rest)" "approach h k u (node pe)"
    "rest \<noteq> []"
  shows "trace_ok h k (u # rest) (pe # tr) (pe # pes)"
proof -
  have a: "\<And>arr::pathElement option list. Suc (length rest) \<le> length arr \<Longrightarrow>
      drop (length rest) (array_set arr (int (length rest)) pe) = Some pe # drop (Suc (length rest)) arr
      \<and> length (array_set arr (int (length rest)) pe) = length arr"
    by (auto simp: array_set_def drop_update_cancel Cons_nth_drop_Suc[symmetric] upd_conv_take_nth_drop)
  from assms(1,4) have ne: "pes \<noteq> []" "tr \<noteq> []" by (auto simp: trace_ok_def)
  then show ?thesis using assms a by (auto simp: trace_ok_def fill_eq)
qed

lemma spans_mid:
  "spans_ok ex h K (pre @ a # b # post) \<Longrightarrow> span_sl (h a) = cnt K (key (h b)) - cnt K (key (h a))"
  by (induction pre rule: induct_list012) auto

lemma findPath_loop_step:
  "right (h a) = Some b \<Longrightarrow>
   findPath_loop h k path lvl rnk a =
     (if key (h b) \<noteq> None \<and> key (h b) < Some k
      then findPath_loop h k (path @ [\<lparr>level = lvl, node = a, rank = rnk\<rparr>]) lvl (rnk + span_sl (h a)) b
      else (case down (h a) of
              Some d \<Rightarrow> findPath_loop h k (path @ [\<lparr>level = lvl, node = a, rank = rnk\<rparr>]) (lvl - 1) rnk d
            | None \<Rightarrow> Some (Inr (path @ [\<lparr>level = lvl, node = a, rank = rnk\<rparr>]))))"
  by (subst findPath_loop.simps) (auto simp: Let_def)

lemma walk:
  assumes "lanes_ok h lv" "fst (hd lv) = pre @ a # post" "key (h a) < Some k"
  shows "\<exists>tr pes. findPath_loop h k path (int (length lv) - 1) rnk a = Some (Inr (path @ tr))
      \<and> trace_ok h k lv tr pes
      \<and> ((\<forall>l \<in> set lv. spans_ok ex h K (fst l)) \<longrightarrow> rnk = cnt K (key (h a)) - 1
            \<longrightarrow> ranks_ok h K pes)"
  using assms
proof (induction lv arbitrary: pre a post path rnk)
  case Nil
  then show ?case by simp
next
  case (Cons u rest)
  let ?L = "int (length rest)"
  have lane: "lane_ok h u" using Cons.prems(1) by simp
  have descend: "\<exists>tr pes.
      (case down (h a) of
         Some d \<Rightarrow> findPath_loop h k (path @ [\<lparr>level = ?L, node = a, rank = rnk\<rparr>]) (?L - 1) rnk d
       | None \<Rightarrow> Some (Inr (path @ [\<lparr>level = ?L, node = a, rank = rnk\<rparr>])))
        = Some (Inr (path @ tr))
      \<and> trace_ok h k (u # rest) tr pes
      \<and> ((\<forall>l \<in> set (u # rest). spans_ok ex h K (fst l)) \<longrightarrow> rnk = cnt K (key (h a)) - 1
            \<longrightarrow> ranks_ok h K pes)"
    if ap: "approach h k u a" for a path rnk
  proof (cases rest)
    case Nil
    with Cons.prems(1) ap have "down (h a) = None" by (auto simp: approach_def)
    moreover have "trace_ok h k [u] [\<lparr>level = 0, node = a, rank = rnk\<rparr>] [\<lparr>level = 0, node = a, rank = rnk\<rparr>]"
      using ap by (rule trace_ok_single)
    ultimately show ?thesis using Nil
      by (intro exI[of _ "[\<lparr>level = 0, node = a, rank = rnk\<rparr>]"]) (simp add: ranks_ok_def)
  next
    case (Cons l rest')
    let ?pe = "\<lparr>level = ?L, node = a, rank = rnk\<rparr>"
    from Cons.prems(1) Cons have lk: "links h u l" and lo: "lanes_ok h rest" by auto
    from lk ap obtain d where d: "d \<in> set (fst l)" "down (h a) = Some d" "key (h d) = key (h a)"
      by (auto simp: links_def approach_def)
    from d(1) obtain pre' post' where sp: "fst l = pre' @ d # post'" by (auto dest: split_list)
    from ap d(3) have dk: "key (h d) < Some k" by (simp add: approach_def)
    from Cons.IH[OF lo, of pre' d post' "path @ [?pe]" rnk] sp dk Cons
    obtain tr' pes' where r:
      "findPath_loop h k (path @ [?pe]) (?L - 1) rnk d = Some (Inr ((path @ [?pe]) @ tr'))"
      "trace_ok h k rest tr' pes'"
      "(\<forall>l \<in> set rest. spans_ok ex h K (fst l)) \<longrightarrow> rnk = cnt K (key (h d)) - 1
            \<longrightarrow> ranks_ok h K pes'"
      by auto
    have "trace_ok h k (u # rest) (?pe # tr') (?pe # pes')"
      using r(2) ap Cons by (intro trace_ok_down) auto
    then show ?thesis using r(1,3) d
      by (intro exI[of _ "?pe # tr'"] exI[of _ "?pe # pes'"]) (auto simp: ranks_ok_def)
  qed
  show ?case using Cons.prems(2,3)
  proof (induction post arbitrary: pre a path rnk)
    case Nil
    from lane Nil have r: "right (h a) = Some (snd u)" and kt: "key (h (snd u)) = None"
      by (auto simp: lane_ok_def dest: chain_mid)
    from Nil r kt have "approach h k u a" by (auto simp: approach_def)
    from descend[OF this, of path rnk] show ?case
      by (simp add: findPath_loop_step[where h=h and a=a, OF r] kt)
  next
    case (Cons b post')
    let ?pe = "\<lparr>level = ?L, node = a, rank = rnk\<rparr>"
    from lane Cons.prems have r: "right (h a) = Some b"
      by (auto simp: lane_ok_def dest: chain_mid)
    from lane Cons.prems have lt: "key (h a) < key (h b)"
      by (auto simp: lane_ok_def sorted_wrt_append)
    show ?case
    proof (cases "key (h b) < Some k")
      case True
      from lt have nn: "key (h b) \<noteq> None" by (cases "key (h b)") auto
      from Cons.IH[of "pre @ [a]" b "path @ [?pe]" "rnk + span_sl (h a)"] Cons.prems True
      obtain tr' pes where r':
        "findPath_loop h k (path @ [?pe]) ?L (rnk + span_sl (h a)) b = Some (Inr ((path @ [?pe]) @ tr'))"
        "trace_ok h k (u # rest) tr' pes"
        "(\<forall>l \<in> set (u # rest). spans_ok ex h K (fst l)) \<longrightarrow> rnk + span_sl (h a) = cnt K (key (h b)) - 1
            \<longrightarrow> ranks_ok h K pes"
        by auto
      have "trace_ok h k (u # rest) (?pe # tr') pes"
        using r'(2) by (rule trace_ok_right) simp
      moreover have "(\<forall>l \<in> set (u # rest). spans_ok ex h K (fst l)) \<Longrightarrow> rnk = cnt K (key (h a)) - 1
          \<Longrightarrow> rnk + span_sl (h a) = cnt K (key (h b)) - 1"
        using Cons.prems(1) spans_mid[of ex h K pre a b post'] by auto
      ultimately show ?thesis using r'(1,3) True nn
        by (intro exI[of _ "?pe # tr'"] exI[of _ pes]) (auto simp: findPath_loop_step[where h=h and a=a, OF r])
    next
      case False
      with Cons.prems r have "approach h k u a" by (auto simp: approach_def)
      from descend[OF this, of path rnk] show ?thesis using False
        by (simp add: findPath_loop_step[where h=h and a=a, OF r])
    qed
  qed
qed

lemma insert_step_Some:
  assumes "node pe < fresh s" "\<forall>l. lastNode = Some l \<longrightarrow> l < fresh s"
  shows "insert_step H k d iar (s, lastNode) (Some pe) =
     (if level pe < H
      then (s\<lparr>store := ins_store k d iar pe (store s) (fresh s) lastNode, fresh := Suc (fresh s)\<rparr>,
            Some (fresh s))
      else (s\<lparr>store := (store s)(node pe := (store s (node pe))\<lparr>span_sl := span_sl (store s (node pe)) + 1\<rparr>)\<rparr>, lastNode))"
proof (cases "level pe < H")
  case False
  then show ?thesis by (simp add: insert_step_def Let_def)
next
  case True
  from assms have ne: "node pe \<noteq> fresh s" by simp
  show ?thesis
  proof (cases lastNode)
    case None
    have "ins_store k d iar pe (store s) (fresh s) None =
       (store s)(fresh s := \<lparr>down = None, right = right (store s (node pe)), key = Some k,
              data = (if level pe = 0 then Some d else None),
              span_sl = (span_sl (store s (node pe)) + 1) - (iar - rank pe)\<rparr>,
          node pe := (store s (node pe))\<lparr>right := Some (fresh s), span_sl := iar - rank pe\<rparr>)"
      using ne by (intro ext) (simp add: ins_store_def)
    then show ?thesis using True None ne
      by (simp add: insert_step_def new_SkipListNode_def Let_def)
  next
    case (Some l)
    with assms have nl: "l \<noteq> fresh s" by auto
    have "ins_store k d iar pe (store s) (fresh s) (Some l) =
       (store s)(fresh s := \<lparr>down = None, right = right (store s (node pe)), key = Some k,
              data = (if level pe = 0 then Some d else None),
              span_sl = (span_sl (store s (node pe)) + 1) - (iar - rank pe)\<rparr>,
          node pe := (store s (node pe))\<lparr>right := Some (fresh s), span_sl := iar - rank pe\<rparr>,
          l := (if l = node pe then (store s (node pe))\<lparr>right := Some (fresh s), span_sl := iar - rank pe\<rparr>
                else store s l)\<lparr>down := Some (fresh s)\<rparr>)"
      using ne nl by (intro ext) (simp add: ins_store_def)
    then show ?thesis using True Some ne nl
      by (simp add: insert_step_def new_SkipListNode_def Let_def)
  qed
qed

lemma ins_store_old:
  "x \<noteq> n \<Longrightarrow> key (ins_store k d iar pe h n l x) = key (h x)"
  "x \<noteq> n \<Longrightarrow> data (ins_store k d iar pe h n l x) = data (h x)"
  "x \<noteq> n \<Longrightarrow> x \<noteq> node pe \<Longrightarrow> right (ins_store k d iar pe h n l x) = right (h x)"
  "x \<noteq> n \<Longrightarrow> x \<noteq> node pe \<Longrightarrow> span_sl (ins_store k d iar pe h n l x) = span_sl (h x)"
  "x \<noteq> n \<Longrightarrow> l \<noteq> Some x \<Longrightarrow> down (ins_store k d iar pe h n l x) = down (h x)"
  "x \<noteq> n \<Longrightarrow> down (ins_store k d iar pe h n (Some x) x) = Some n"
  by (auto simp: ins_store_def)

lemma ins_store_new:
  "ins_store k d iar pe h n l n = \<lparr>down = None, right = right (h (node pe)), key = Some k,
              data = (if level pe = 0 then Some d else None),
              span_sl = (span_sl (h (node pe)) + 1) - (iar - rank pe)\<rparr>"
  by (simp add: ins_store_def)

lemma ins_store_node:
  "node pe \<noteq> n \<Longrightarrow> right (ins_store k d iar pe h n l (node pe)) = Some n"
  "node pe \<noteq> n \<Longrightarrow> span_sl (ins_store k d iar pe h n l (node pe)) = iar - rank pe"
  by (simp_all add: ins_store_def)

lemma ins_frame_ins:
  assumes lv: "level pe < H" and a: "node pe < fresh sc"
    and l: "\<forall>l. lastNode = Some l \<longrightarrow> l < fresh sc"
    and s1: "fresh s1 = Suc (fresh sc)" "store s1 = ins_store k d iar pe (store sc) (fresh sc) lastNode"
       "head s1 = head sc" "topRight s1 = topRight sc" "tail s1 = tail sc"
       "levelsCount s1 = levelsCount sc" "itemsCount s1 = itemsCount sc"
    and f: "ins_frame H k s1 (Some (fresh sc)) pes s'"
  shows "ins_frame H k sc lastNode (pe # pes) s'"
proof -
  have fr: "fresh s' = fresh sc + length (filter (\<lambda>pe. level pe < H) (pe # pes))"
    using f lv s1 by (simp add: ins_frame_def)
  have flds: "head s' = head sc \<and> topRight s' = topRight sc \<and> tail s' = tail sc
     \<and> levelsCount s' = levelsCount sc \<and> itemsCount s' = itemsCount sc"
    using f s1 by (simp add: ins_frame_def)
  have kd: "key (store s' x) = key (store sc x) \<and> data (store s' x) = data (store sc x)"
    if "x < fresh sc" for x
    using f that s1 by (simp add: ins_frame_def ins_store_old)
  have rs: "right (store s' x) = right (store sc x) \<and> span_sl (store s' x) = span_sl (store sc x)"
    if "x < fresh sc" "x \<notin> node ` set (pe # pes)" for x
    using f that s1 by (simp add: ins_frame_def ins_store_old)
  have dn: "down (store s' x) = down (store sc x)"
    if "x < fresh sc" "lastNode \<noteq> Some x" for x
    using f that s1 by (simp add: ins_frame_def ins_store_old)
  have nw: "key (store s' x) = Some k
       \<and> down (store s' x) = (if Suc x < fresh s' then Some (Suc x) else None)"
    if "fresh sc \<le> x" "x < fresh s'" for x
  proof (cases "x = fresh sc")
    case True
    from f s1 have "key (store s' (fresh sc)) = Some k"
      by (simp add: ins_frame_def ins_store_new)
    moreover from f s1 have "down (store s' (fresh sc)) =
        (if Suc (fresh sc) < fresh s' then Some (Suc (fresh sc)) else None)"
      by (simp add: ins_frame_def ins_store_new)
    ultimately show ?thesis using True by simp
  next
    case False
    with that have "fresh s1 \<le> x" using s1 by simp
    with f that show ?thesis by (simp add: ins_frame_def)
  qed
  have ln: "down (store s' l) = (if fresh sc < fresh s' then Some (fresh sc) else down (store sc l))"
    if "lastNode = Some l" for l
  proof -
    from l that have "l < fresh sc" by simp
    with f s1 have "down (store s' l) = down (store s1 l)" by (simp add: ins_frame_def)
    also have "\<dots> = Some (fresh sc)" using s1 that \<open>l < fresh sc\<close> by (simp add: ins_store_old)
    finally show ?thesis using fr lv by simp
  qed
  show ?thesis unfolding ins_frame_def using fr flds kd rs dn nw ln by blast
qed

lemma ins_frame_bump:
  assumes lv: "\<not> level pe < H"
    and s1: "fresh s1 = fresh sc"
       "store s1 = (store sc)(node pe := (store sc (node pe))\<lparr>span_sl := span_sl (store sc (node pe)) + 1\<rparr>)"
       "head s1 = head sc" "topRight s1 = topRight sc" "tail s1 = tail sc"
       "levelsCount s1 = levelsCount sc" "itemsCount s1 = itemsCount sc"
    and f: "ins_frame H k s1 lastNode pes s'"
  shows "ins_frame H k sc lastNode (pe # pes) s'"
proof -
  have fr: "fresh s' = fresh sc + length (filter (\<lambda>pe. level pe < H) (pe # pes))"
    using f lv s1 by (simp add: ins_frame_def)
  have flds: "head s' = head sc \<and> topRight s' = topRight sc \<and> tail s' = tail sc
     \<and> levelsCount s' = levelsCount sc \<and> itemsCount s' = itemsCount sc"
    using f s1 by (simp add: ins_frame_def)
  have kd: "key (store s' x) = key (store sc x) \<and> data (store s' x) = data (store sc x)"
    if "x < fresh sc" for x
    using f that s1 by (simp add: ins_frame_def)
  have rs: "right (store s' x) = right (store sc x) \<and> span_sl (store s' x) = span_sl (store sc x)"
    if "x < fresh sc" "x \<notin> node ` set (pe # pes)" for x
    using f that s1 by (simp add: ins_frame_def)
  have dn: "down (store s' x) = down (store sc x)"
    if "x < fresh sc" "lastNode \<noteq> Some x" for x
    using f that s1 by (simp add: ins_frame_def)
  have nw: "key (store s' x) = Some k
       \<and> down (store s' x) = (if Suc x < fresh s' then Some (Suc x) else None)"
    if "fresh sc \<le> x" "x < fresh s'" for x
    using f that s1 by (simp add: ins_frame_def)
  have ln: "down (store s' l) = (if fresh sc < fresh s' then Some (fresh sc) else down (store sc l))"
    if "lastNode = Some l" for l
    using f that s1 by (simp add: ins_frame_def)
  show ?thesis unfolding ins_frame_def using fr flds kd rs dn nw ln by blast
qed

lemma ins_fold:
  assumes "\<forall>pe \<in> set pes. node pe < fresh sc" "\<forall>l. lastNode = Some l \<longrightarrow> l < fresh sc"
  shows "ins_frame H k sc lastNode pes (fst (foldl (insert_step H k d iar) (sc, lastNode) (map Some pes)))"
  using assms
proof (induction pes arbitrary: sc lastNode)
  case Nil
  then show ?case by (simp add: ins_frame_def)
next
  case (Cons pe pes)
  have st: "insert_step H k d iar (sc, lastNode) (Some pe) =
     (if level pe < H
      then (sc\<lparr>store := ins_store k d iar pe (store sc) (fresh sc) lastNode, fresh := Suc (fresh sc)\<rparr>,
            Some (fresh sc))
      else (sc\<lparr>store := (store sc)(node pe := (store sc (node pe))\<lparr>span_sl := span_sl (store sc (node pe)) + 1\<rparr>)\<rparr>, lastNode))"
    using Cons.prems by (intro insert_step_Some) auto
  show ?case
  proof (cases "level pe < H")
    case True
    define s1 where "s1 = sc\<lparr>store := ins_store k d iar pe (store sc) (fresh sc) lastNode, fresh := Suc (fresh sc)\<rparr>"
    define s' where "s' = fst (foldl (insert_step H k d iar) (s1, Some (fresh sc)) (map Some pes))"
    have "ins_frame H k s1 (Some (fresh sc)) pes s'"
      unfolding s'_def using Cons.prems by (intro Cons.IH) (auto simp: s1_def)
    then have "ins_frame H k sc lastNode (pe # pes) s'"
      using True Cons.prems by (intro ins_frame_ins[where ?s1.0=s1]) (auto simp: s1_def)
    then show ?thesis using True st by (simp add: s'_def s1_def)
  next
    case False
    define s1 where "s1 = sc\<lparr>store := (store sc)(node pe := (store sc (node pe))\<lparr>span_sl := span_sl (store sc (node pe)) + 1\<rparr>)\<rparr>"
    define s' where "s' = fst (foldl (insert_step H k d iar) (s1, lastNode) (map Some pes))"
    have "ins_frame H k s1 lastNode pes s'"
      unfolding s'_def using Cons.prems by (intro Cons.IH) (auto simp: s1_def)
    then have "ins_frame H k sc lastNode (pe # pes) s'"
      using False by (intro ins_frame_bump[where ?s1.0=s1]) (auto simp: s1_def)
    then show ?thesis using False st by (simp add: s'_def s1_def)
  qed
qed

lemma chain_append:
  "chain h (xs @ ys) t = (chain h xs (case ys of [] \<Rightarrow> t | b # _ \<Rightarrow> b) \<and> chain h ys t)"
  by (induction xs) (auto split: list.splits)

lemma chain_cong:
  "\<forall>x \<in> set ns. right (h' x) = right (h x) \<Longrightarrow> chain h' ns t = chain h ns t"
  by (induction ns) auto

lemma sorted_keys_distinct:
  "sorted_wrt (<) (map (\<lambda>a. key (h a)) ns) \<Longrightarrow> distinct ns"
  by (induction ns) auto

lemma lane_ok_distinct: "lane_ok h l \<Longrightarrow> distinct (fst l)"
  by (auto simp: lane_ok_def dest: sorted_keys_distinct)

lemma approach_split:
  assumes "lane_ok h l" "approach h k l a"
  obtains pre post where "fst l = pre @ a # post" "a \<notin> set pre" "a \<notin> set post"
    "\<forall>x \<in> set pre. key (h x) < key (h a)" "key (h a) < Some k"
    "\<forall>x \<in> set post. Some k \<le> key (h x)"
    "right (h a) = Some (case post of [] \<Rightarrow> snd l | b # _ \<Rightarrow> b)"
proof -
  from assms(2) obtain pre post where sp: "fst l = pre @ a # post"
    by (auto simp: approach_def dest: split_list)
  from assms(1) sp have srt: "sorted_wrt (<) (map (\<lambda>a. key (h a)) (pre @ a # post))"
    and ch: "chain h (pre @ a # post) (snd l)"
    by (auto simp: lane_ok_def)
  from ch have r: "right (h a) = Some (case post of [] \<Rightarrow> snd l | b # _ \<Rightarrow> b)"
    by (rule chain_mid)
  from srt have d: "distinct (pre @ a # post)" by (rule sorted_keys_distinct)
  from srt have lt: "\<forall>x \<in> set pre. key (h x) < key (h a)" "\<forall>x \<in> set post. key (h a) < key (h x)"
    by (auto simp: sorted_wrt_append)
  have ge: "\<forall>x \<in> set post. Some k \<le> key (h x)"
  proof (cases post)
    case Nil
    then show ?thesis by simp
  next
    case (Cons b post')
    with r assms(2) have "key (h b) = None \<or> Some k \<le> key (h b)" by (auto simp: approach_def)
    moreover from lt Cons have "key (h a) < key (h b)" by simp
    ultimately have "Some k \<le> key (h b)" by (cases "key (h b)") auto
    moreover from srt Cons have "\<forall>x \<in> set post'. key (h b) < key (h x)"
      by (auto simp: sorted_wrt_append)
    ultimately show ?thesis using Cons by (auto intro: order.trans less_imp_le)
  qed
  from assms(2) have "key (h a) < Some k" by (simp add: approach_def)
  with sp d lt ge r show ?thesis by (intro that[of pre post]) auto
qed

lemma ins_after_split: "a \<notin> set pre \<Longrightarrow> ins_after a n (pre @ a # post) = pre @ a # n # post"
  by (induction pre) auto

lemma lane_ok_ins:
  assumes ok: "lane_ok h (pre @ a # post, t)"
    and ka: "key (h a) < Some k" and kp: "\<forall>x \<in> set post. Some k < key (h x)"
    and nt: "a \<noteq> t"
    and h': "key (h' n) = Some k" "right (h' n) = right (h a)" "right (h' a) = Some n"
       "\<forall>x \<in> set (pre @ a # post) \<union> {t}. key (h' x) = key (h x)"
       "\<forall>x \<in> set (pre @ post) \<union> {t}. right (h' x) = right (h x)"
  shows "lane_ok h' (pre @ a # n # post, t)"
proof -
  from ok have srt: "sorted_wrt (<) (map (\<lambda>a. key (h a)) (pre @ a # post))"
    and ch: "chain h (pre @ a # post) t" and hd: "key (h (hd (pre @ a # post))) = None"
    and tl: "right (h t) = None" "key (h t) = None"
    by (auto simp: lane_ok_def)
  have keys: "map (\<lambda>a. key (h' a)) (pre @ a # n # post)
      = map (\<lambda>a. key (h a)) pre @ key (h a) # Some k # map (\<lambda>a. key (h a)) post"
    using h' by simp
  have "sorted_wrt (<) (map (\<lambda>a. key (h' a)) (pre @ a # n # post))"
    unfolding keys using srt ka kp by (auto simp: sorted_wrt_append intro: less_trans)
  moreover have "chain h' (pre @ a # n # post) t"
  proof -
    from ch have c1: "chain h pre a" and c2: "chain h post t"
      and r: "right (h a) = Some (case post of [] \<Rightarrow> t | b # _ \<Rightarrow> b)"
      by (auto simp: chain_append)
    from c1 h' have "chain h' pre a" by (subst chain_cong[where h=h]) auto
    moreover from c2 h' have "chain h' post t" by (subst chain_cong[where h=h]) auto
    ultimately show ?thesis using r h' by (auto simp: chain_append)
  qed
  moreover have "key (h' (hd (pre @ a # n # post))) = None"
    using hd h' by (cases pre) auto
  ultimately show ?thesis using tl h' by (simp add: lane_ok_def)
qed

lemma lane_ok_del:
  assumes ok: "lane_ok h (pre @ a # b # post, t)"
    and h': "right (h' a) = right (h b)"
       "\<forall>x \<in> set (pre @ a # post) \<union> {t}. key (h' x) = key (h x)"
       "\<forall>x \<in> set (pre @ post) \<union> {t}. right (h' x) = right (h x)"
  shows "lane_ok h' (pre @ a # post, t)"
proof -
  from ok have srt: "sorted_wrt (<) (map (\<lambda>a. key (h a)) (pre @ a # b # post))"
    and ch: "chain h (pre @ a # b # post) t" and hd: "key (h (hd (pre @ a # b # post))) = None"
    and tl: "right (h t) = None" "key (h t) = None"
    by (auto simp: lane_ok_def)
  have keys: "map (\<lambda>a. key (h' a)) (pre @ a # post) = map (\<lambda>a. key (h a)) (pre @ a # post)"
    using h' by simp
  have "sorted_wrt (<) (map (\<lambda>a. key (h' a)) (pre @ a # post))"
    unfolding keys using srt by (auto simp: sorted_wrt_append)
  moreover have "chain h' (pre @ a # post) t"
  proof -
    from ch have c1: "chain h pre a" and c2: "chain h post t"
      and r: "right (h b) = Some (case post of [] \<Rightarrow> t | b # _ \<Rightarrow> b)"
      by (auto simp: chain_append)
    from c1 h' have "chain h' pre a" by (subst chain_cong[where h=h]) auto
    moreover from c2 h' have "chain h' post t" by (subst chain_cong[where h=h]) auto
    ultimately show ?thesis using r h' by (auto simp: chain_append)
  qed
  moreover have "key (h' (hd (pre @ a # post))) = None"
    using hd h' by (cases pre) auto
  ultimately show ?thesis using tl h' by (simp add: lane_ok_def)
qed

lemma lane_ok_cong:
  assumes "\<forall>x \<in> set (fst l) \<union> {snd l}. key (h' x) = key (h x) \<and> right (h' x) = right (h x)"
  shows "lane_ok h' l = lane_ok h l"
proof -
  have k: "map (\<lambda>a. key (h' a)) (fst l) = map (\<lambda>a. key (h a)) (fst l)" using assms by simp
  have c: "chain h' (fst l) (snd l) = chain h (fst l) (snd l)"
    using assms by (intro chain_cong) simp
  have hd: "fst l \<noteq> [] \<Longrightarrow> key (h' (hd (fst l))) = key (h (hd (fst l)))"
    using assms by simp
  have t: "key (h' (snd l)) = key (h (snd l))" "right (h' (snd l)) = right (h (snd l))"
    using assms by simp_all
  show ?thesis unfolding lane_ok_def k c t using hd by auto
qed

lemma spans_append:
  "spans_ok ex h K (xs @ y # ys) = (spans_ok False h K (xs @ [y]) \<and> spans_ok ex h K (y # ys))"
  by (induction xs rule: induct_list012) auto

lemma spans_shift:
  assumes "\<forall>x \<in> set ns. span_sl (h' x) = span_sl (h x)"
    "\<forall>x \<in> set ns. cnt K' (key (h' x)) = cnt K (key (h x)) + c"
    "ex \<longrightarrow> int (length K') = int (length K) + c"
  shows "spans_ok ex h' K' ns = spans_ok ex h K ns"
  using assms by (induction ns rule: induct_list012) auto

lemma spans_shift_upto:
  assumes "\<forall>x \<in> set xs. span_sl (h' x) = span_sl (h x)"
    "\<forall>x \<in> set (xs @ [y]). cnt K' (key (h' x)) = cnt K (key (h x)) + c"
  shows "spans_ok False h' K' (xs @ [y]) = spans_ok False h K (xs @ [y])"
  using assms by (induction xs rule: induct_list012) auto

lemma spans_ins:
  assumes sp: "spans_ok ex h K (pre @ a # post)"
    and lo: "\<forall>x \<in> set (pre @ [a]). key (h x) < Some k"
    and hi: "\<forall>x \<in> set post. Some k < key (h x)"
    and K': "\<And>ko. cnt K' ko = cnt K ko + (if Some k \<le> ko then 1 else 0)"
       "length K' = Suc (length K)"
    and h': "key (h' n) = Some k" "\<forall>x \<in> set (pre @ a # post). key (h' x) = key (h x)"
       "\<forall>x \<in> set (pre @ post). span_sl (h' x) = span_sl (h x)"
       "span_sl (h' a) = cnt K (Some k) + 1 - cnt K (key (h a))"
       "span_sl (h' n) = span_sl (h a) - cnt K (Some k) + cnt K (key (h a))"
  shows "spans_ok ex h' K' (pre @ a # n # post)"
proof -
  from sp have p1: "spans_ok False h K (pre @ [a])" and p2: "spans_ok ex h K (a # post)"
    by (simp_all add: spans_append[of ex h K pre a post])
  have q1: "spans_ok False h' K' (pre @ [a])"
    using p1 lo h' by (subst spans_shift_upto[where h=h and K=K and c=0]) (auto simp: K')
  have q3: "spans_ok ex h' K' post = spans_ok ex h K post"
    using hi h' by (intro spans_shift[where c=1]) (auto simp: K')
  have ca: "cnt K' (key (h' a)) = cnt K (key (h a))" using lo h' by (auto simp: K')
  have q2: "spans_ok ex h' K' (a # n # post)"
  proof (cases post)
    case Nil
    with p2 h' ca show ?thesis by (auto simp: K')
  next
    case (Cons b post')
    with hi h' have "cnt K' (key (h' b)) = cnt K (key (h b)) + 1" by (auto simp: K')
    with Cons p2 q3 h' ca show ?thesis by (auto simp: K')
  qed
  show ?thesis using q1 q2 by (simp add: spans_append[of ex h' K' pre a "n # post"])
qed

lemma spans_bump:
  assumes sp: "spans_ok ex h K (pre @ a # post)"
    and lo: "\<forall>x \<in> set (pre @ [a]). key (h x) < Some k"
    and hi: "\<forall>x \<in> set post. Some k < key (h x)"
    and K': "\<And>ko. cnt K' ko = cnt K ko + (if Some k \<le> ko then c else 0)"
       "ex \<longrightarrow> int (length K') = int (length K) + c"
    and h': "\<forall>x \<in> set (pre @ a # post). key (h' x) = key (h x)"
       "\<forall>x \<in> set (pre @ post). span_sl (h' x) = span_sl (h x)"
       "span_sl (h' a) = span_sl (h a) + c"
  shows "spans_ok ex h' K' (pre @ a # post)"
proof -
  from sp have p1: "spans_ok False h K (pre @ [a])" and p2: "spans_ok ex h K (a # post)"
    by (simp_all add: spans_append[of ex h K pre a post])
  have q1: "spans_ok False h' K' (pre @ [a])"
    using p1 lo h' by (subst spans_shift_upto[where h=h and K=K and c=0]) (auto simp: K')
  have q3: "spans_ok ex h' K' post = spans_ok ex h K post"
    using hi h' K'(2) by (intro spans_shift[where c=c]) (auto simp: K')
  have ca: "cnt K' (key (h' a)) = cnt K (key (h a))" using lo h' by (auto simp: K')
  have q2: "spans_ok ex h' K' (a # post)"
  proof (cases post)
    case Nil
    with p2 h' ca K'(2) show ?thesis by auto
  next
    case (Cons b post')
    with hi h' have "cnt K' (key (h' b)) = cnt K (key (h b)) + c" by (auto simp: K')
    with Cons p2 q3 h' ca show ?thesis by auto
  qed
  show ?thesis using q1 q2 by (simp add: spans_append[of ex h' K' pre a post])
qed

lemma spans_del:
  assumes sp: "spans_ok False h K (pre @ a # b # post)"
    and lo: "\<forall>x \<in> set (pre @ [a]). key (h x) < Some k"
    and kb: "key (h b) = Some k"
    and hi: "\<forall>x \<in> set post. Some k < key (h x)"
    and K': "\<And>ko. cnt K' ko = cnt K ko - (if Some k \<le> ko then 1 else 0)"
    and h': "\<forall>x \<in> set (pre @ a # post). key (h' x) = key (h x)"
       "\<forall>x \<in> set (pre @ post). span_sl (h' x) = span_sl (h x)"
       "span_sl (h' a) = span_sl (h a) + span_sl (h b) - 1"
  shows "spans_ok False h' K' (pre @ a # post)"
proof -
  from sp have p1: "spans_ok False h K (pre @ [a])" and p2: "spans_ok False h K (a # b # post)"
    by (simp_all add: spans_append[of False h K pre a "b # post"])
  have q1: "spans_ok False h' K' (pre @ [a])"
    using p1 lo h' by (subst spans_shift_upto[where h=h and K=K and c=0]) (auto simp: K')
  have q3: "spans_ok False h' K' post = spans_ok False h K post"
    using hi h' by (intro spans_shift[where c="- 1"]) (auto simp: K')
  have ca: "cnt K' (key (h' a)) = cnt K (key (h a))" using lo h' by (auto simp: K')
  have q2: "spans_ok False h' K' (a # post)"
  proof (cases post)
    case Nil
    then show ?thesis by simp
  next
    case (Cons c post')
    with hi h' have "cnt K' (key (h' c)) = cnt K (key (h c)) - 1" by (auto simp: K')
    with Cons p2 q3 h' ca kb show ?thesis by auto
  qed
  show ?thesis using q1 q2 by (simp add: spans_append[of False h' K' pre a post])
qed

lemma lanes_ok_iff:
  "lanes_ok h lv = (lv \<noteq> [] \<and> (\<forall>i < length lv. lane_ok h (lv ! i))
     \<and> (\<forall>i. Suc i < length lv \<longrightarrow> links h (lv ! i) (lv ! Suc i))
     \<and> bottom_ok h (last lv))"
proof (induction lv)
  case Nil
  then show ?case by simp
next
  case (Cons u rest)
  show ?case
  proof (cases rest)
    case Nil
    then show ?thesis by (auto simp: bottom_ok_def)
  next
    case (Cons l rest')
    have a: "(\<forall>i < length (u # rest). lane_ok h ((u # rest) ! i))
        = (lane_ok h u \<and> (\<forall>i < length rest. lane_ok h (rest ! i)))"
      by (auto simp: less_Suc_eq_0_disj)
    have b: "(\<forall>i. Suc i < length (u # rest) \<longrightarrow> links h ((u # rest) ! i) ((u # rest) ! Suc i))
        = (links h u l \<and> (\<forall>i. Suc i < length rest \<longrightarrow> links h (rest ! i) (rest ! Suc i)))"
      using Cons by (auto simp: less_Suc_eq_0_disj nth_Cons split: nat.splits)
    show ?thesis unfolding a b using Cons Cons.IH by auto
  qed
qed

lemma ins_fold_last:
  assumes "\<forall>pe \<in> set pes. node pe < fresh sc" "\<forall>l. lastNode = Some l \<longrightarrow> l < fresh sc"
  shows "\<forall>l. snd (foldl (insert_step H k d iar) (sc, lastNode) (map Some pes)) = Some l
      \<longrightarrow> l < fresh (fst (foldl (insert_step H k d iar) (sc, lastNode) (map Some pes)))"
  using assms
proof (induction pes arbitrary: sc lastNode)
  case Nil
  then show ?case by simp
next
  case (Cons pe pes)
  have st: "insert_step H k d iar (sc, lastNode) (Some pe) =
     (if level pe < H
      then (sc\<lparr>store := ins_store k d iar pe (store sc) (fresh sc) lastNode, fresh := Suc (fresh sc)\<rparr>,
            Some (fresh sc))
      else (sc\<lparr>store := (store sc)(node pe := (store sc (node pe))\<lparr>span_sl := span_sl (store sc (node pe)) + 1\<rparr>)\<rparr>, lastNode))"
    using Cons.prems by (intro insert_step_Some) auto
  show ?case
  proof (cases "level pe < H")
    case True
    then show ?thesis using Cons.prems st
      by (simp del: foldl_Cons add: foldl_Cons[of _ _ "Some pe"]) (rule Cons.IH, auto)
  next
    case False
    then show ?thesis using Cons.prems st
      by (simp del: foldl_Cons add: foldl_Cons[of _ _ "Some pe"]) (rule Cons.IH, auto)
  qed
qed

lemma ins_fold_at:
  assumes "i < length pes" "\<forall>pe \<in> set pes. node pe < fresh sc" "distinct (map node pes)"
    "\<forall>l. lastNode = Some l \<longrightarrow> l < fresh sc"
  shows "ins_at H d iar sc pes i (fst (foldl (insert_step H k d iar) (sc, lastNode) (map Some pes)))"
  using assms
proof (induction pes arbitrary: sc lastNode i)
  case Nil
  then show ?case by simp
next
  case (Cons pe pes)
  have st: "insert_step H k d iar (sc, lastNode) (Some pe) =
     (if level pe < H
      then (sc\<lparr>store := ins_store k d iar pe (store sc) (fresh sc) lastNode, fresh := Suc (fresh sc)\<rparr>,
            Some (fresh sc))
      else (sc\<lparr>store := (store sc)(node pe := (store sc (node pe))\<lparr>span_sl := span_sl (store sc (node pe)) + 1\<rparr>)\<rparr>, lastNode))"
    using Cons.prems by (intro insert_step_Some) auto
  define s1 where "s1 = fst (insert_step H k d iar (sc, lastNode) (Some pe))"
  define l1 where "l1 = snd (insert_step H k d iar (sc, lastNode) (Some pe))"
  define s' where "s' = fst (foldl (insert_step H k d iar) (s1, l1) (map Some pes))"
  have s': "fst (foldl (insert_step H k d iar) (sc, lastNode) (map Some (pe # pes))) = s'"
    by (simp add: s'_def s1_def l1_def)
  have fr1: "fresh s1 = (if level pe < H then Suc (fresh sc) else fresh sc)"
    by (simp add: s1_def st)
  have l1: "\<forall>l. l1 = Some l \<longrightarrow> l < fresh s1"
    using Cons.prems(4) by (auto simp: l1_def s1_def st)
  have b1: "\<forall>pe \<in> set pes. node pe < fresh s1"
    using Cons.prems(2) fr1 by auto
  have frame: "ins_frame H k s1 l1 pes s'"
    unfolding s'_def using b1 l1 by (rule ins_fold)
  have pe: "node pe < fresh sc" "node pe \<notin> node ` set pes"
    using Cons.prems by auto
  show ?case
  proof (cases i)
    case 0
    show ?thesis
    proof (cases "level pe < H")
      case True
      have "store s1 = ins_store k d iar pe (store sc) (fresh sc) lastNode"
        using True by (simp add: s1_def st)
      then have v: "right (store s1 (node pe)) = Some (fresh sc)"
          "span_sl (store s1 (node pe)) = iar - rank pe"
          "right (store s1 (fresh sc)) = right (store sc (node pe))"
          "span_sl (store s1 (fresh sc)) = span_sl (store sc (node pe)) + 1 - (iar - rank pe)"
          "data (store s1 (fresh sc)) = (if level pe = 0 then Some d else None)"
        using pe by (simp_all add: ins_store_node ins_store_new)
      have "fresh sc \<notin> node ` set pes" using Cons.prems(2) by auto
      with frame pe fr1 True have
        "right (store s' (node pe)) = right (store s1 (node pe))"
        "span_sl (store s' (node pe)) = span_sl (store s1 (node pe))"
        "right (store s' (fresh sc)) = right (store s1 (fresh sc))"
        "span_sl (store s' (fresh sc)) = span_sl (store s1 (fresh sc))"
        "data (store s' (fresh sc)) = data (store s1 (fresh sc))"
        by (simp_all add: ins_frame_def)
      with v True 0 show ?thesis unfolding s' by (simp add: ins_at_def)
    next
      case False
      have "store s1 = (store sc)(node pe := (store sc (node pe))\<lparr>span_sl := span_sl (store sc (node pe)) + 1\<rparr>)"
        using False by (simp add: s1_def st)
      then have v: "right (store s1 (node pe)) = right (store sc (node pe))"
          "span_sl (store s1 (node pe)) = span_sl (store sc (node pe)) + 1"
        by simp_all
      from frame pe fr1 False have
        "right (store s' (node pe)) = right (store s1 (node pe))"
        "span_sl (store s' (node pe)) = span_sl (store s1 (node pe))"
        by (simp_all add: ins_frame_def)
      with v False 0 show ?thesis unfolding s' by (simp add: ins_at_def)
    qed
  next
    case (Suc j)
    with Cons.prems have j: "j < length pes" by simp
    have ih: "ins_at H d iar s1 pes j s'"
      unfolding s'_def using j b1 Cons.prems(3) l1 by (intro Cons.IH) auto
    let ?a = "node (pes ! j)"
    have "pes ! j \<in> set pes" using j by simp
    then have a: "?a \<noteq> node pe" "?a < fresh sc"
      using Cons.prems(2) pe(2) by (auto simp: image_iff)
    have old: "right (store s1 ?a) = right (store sc ?a) \<and> span_sl (store s1 ?a) = span_sl (store sc ?a)"
    proof (cases "level pe < H")
      case True
      have "store s1 = ins_store k d iar pe (store sc) (fresh sc) lastNode"
        using True by (simp add: s1_def st)
      then show ?thesis using a by (simp add: ins_store_old)
    next
      case False
      have "store s1 = (store sc)(node pe := (store sc (node pe))\<lparr>span_sl := span_sl (store sc (node pe)) + 1\<rparr>)"
        using False by (simp add: s1_def st)
      then show ?thesis using a by simp
    qed
    have n: "fresh s1 + length (filter (\<lambda>pe. level pe < H) (take j pes))
        = fresh sc + length (filter (\<lambda>pe. level pe < H) (take (Suc j) (pe # pes)))"
      using fr1 by simp
    show ?thesis unfolding s' using ih old Suc n
      by (simp add: ins_at_def Let_def del: take_Suc_Cons)
  qed
qed

lemma cnt_None [simp]: "cnt K None = 0"
  by (simp add: cnt_def)

lemma findPath_wf:
  assumes "wf s lv"
  shows "\<exists>tr pes. findPath s k = Some (Inr tr) \<and> trace_ok (store s) k lv tr pes
      \<and> ((\<forall>l \<in> set lv. spans_ok ex (store s) K (fst l)) \<longrightarrow> ranks_ok (store s) K pes)"
proof -
  from assms have lo: "lanes_ok (store s) lv" and hd: "head s = hd (fst (hd lv))"
    and n: "levelsCount s = int (length lv)"
    by (simp_all add: wf_def)
  from lo have "lv \<noteq> []" by (cases lv) auto
  with lo have "lane_ok (store s) (hd lv)" by (cases lv) auto
  then have ne: "fst (hd lv) \<noteq> []" and k0: "key (store s (head s)) = None"
    using hd by (auto simp: lane_ok_def)
  then have sp: "fst (hd lv) = [] @ head s # tl (fst (hd lv))" using hd by simp
  have lt: "key (store s (head s)) < Some k" using k0 by simp
  from walk[OF lo sp lt, of "[]" "- 1" ex K] k0 n show ?thesis
    by (auto simp: findPath_def)
qed

lemma trace_ok_nth:
  assumes "trace_ok h k lv tr pes" "i < length lv"
  shows "approach h k (lv ! i) (node (pes ! i))" "level (pes ! i) = int (length lv - 1 - i)"
proof -
  from assms have len: "length pes = length lv"
    and la: "list_all2 (\<lambda>l pe. approach h k l (node pe)) lv pes"
    and lv: "map level pes = map int (rev [0..<length lv])"
    unfolding trace_ok_def by blast+
  from la assms(2) show "approach h k (lv ! i) (node (pes ! i))"
    by (rule list_all2_nthD)
  have "level (pes ! i) = map level pes ! i" using assms(2) len by simp
  also have "\<dots> = map int (rev [0..<length lv]) ! i" by (simp only: lv)
  also have "\<dots> = int (length lv - 1 - i)" using assms(2) by (simp add: rev_nth)
  finally show "level (pes ! i) = int (length lv - 1 - i)" .
qed

lemma findInsertPath_wf:
  assumes "wf s lv"
  shows "\<exists>tr pes. findPath s k = Some (Inr tr) \<and> findInsertPath s k = Some (Inr (map Some pes))
      \<and> trace_ok (store s) k lv tr pes
      \<and> ((\<forall>l \<in> set lv. spans_ok ex (store s) K (fst l)) \<longrightarrow> ranks_ok (store s) K pes)"
proof -
  from findPath_wf[OF assms, of k ex K] obtain tr pes where
    r: "findPath s k = Some (Inr tr)" "trace_ok (store s) k lv tr pes"
      "(\<forall>l \<in> set lv. spans_ok ex (store s) K (fst l)) \<longrightarrow> ranks_ok (store s) K pes"
    by blast
  from assms have n: "levelsCount s = int (length lv)" by (simp add: wf_def)
  have f: "(\<lambda>arr pathElement. array_set arr (level pathElement)
                  \<lparr>level = level pathElement, node = node pathElement, rank = rank pathElement\<rparr>) = fill"
    by (intro ext) (simp add: fill_def)
  from r(2) have "foldl fill (replicate (length lv) None) tr = map Some (rev pes)"
    by (simp add: trace_ok_def)
  then have "findInsertPath s k = Some (Inr (map Some pes))"
    using r(1) n by (simp add: findInsertPath_def f rev_map)
  with r show ?thesis by blast
qed

lemma lane_keys_subset:
  "lanes_ok h lv \<Longrightarrow> l \<in> set lv \<Longrightarrow> lane_keys h l \<subseteq> lane_keys h (last lv)"
proof (induction lv arbitrary: l)
  case Nil
  then show ?case by simp
next
  case (Cons u rest)
  show ?case
  proof (cases rest)
    case Nil
    with Cons.prems show ?thesis by simp
  next
    case (Cons l' rest')
    with Cons.prems have lk: "links h u l'" and lo: "lanes_ok h rest" by auto
    have "lane_keys h u \<subseteq> lane_keys h l'"
    proof
      fix ko assume "ko \<in> lane_keys h u"
      then obtain a where a: "a \<in> set (fst u)" "ko = key (h a)" by (auto simp: lane_keys_def)
      with lk obtain d where d: "d \<in> set (fst l')" "key (h d) = key (h a)"
        unfolding links_def by blast
      show "ko \<in> lane_keys h l'"
        unfolding lane_keys_def a(2) d(2)[symmetric] using d(1) by (rule image_eqI[OF refl])
    qed
    moreover from Cons.IH[OF lo, of l'] Cons have "lane_keys h l' \<subseteq> lane_keys h (last rest)" by simp
    ultimately have u: "lane_keys h u \<subseteq> lane_keys h (last rest)" by blast
    have lst: "last (u # rest) = last rest" using Cons by simp
    show ?thesis
    proof (cases "l = u")
      case True
      with u lst show ?thesis by simp
    next
      case False
      with Cons.prems(2) have "l \<in> set rest" by simp
      from Cons.IH[OF lo this] lst show ?thesis by simp
    qed
  qed
qed

lemma approach_right_key:
  assumes "lane_ok h l" "approach h k l a" "right (h a) = Some b"
  shows "(key (h b) = Some k) = (Some k \<in> lane_keys h l)"
proof -
  from assms(1,2) obtain pre post where sp: "fst l = pre @ a # post"
    "\<forall>x \<in> set pre. key (h x) < key (h a)" "key (h a) < Some k"
    "\<forall>x \<in> set post. Some k \<le> key (h x)"
    "right (h a) = Some (case post of [] \<Rightarrow> snd l | b # _ \<Rightarrow> b)"
    by (rule approach_split)
  from assms(1) have kt: "key (h (snd l)) = None"
    and srt: "sorted_wrt (<) (map (\<lambda>a. key (h a)) (fst l))" by (auto simp: lane_ok_def)
  show ?thesis
  proof (cases post)
    case Nil
    with sp assms(3) kt have "key (h b) = None" by simp
    moreover have "Some k \<notin> lane_keys h l"
      using sp Nil by (auto simp: lane_keys_def)
    ultimately show ?thesis by simp
  next
    case (Cons b' post')
    with sp assms(3) have b: "b = b'" by simp
    from srt sp Cons have "\<forall>x \<in> set post'. key (h b) < key (h x)"
      by (auto simp: b sorted_wrt_append)
    then have "Some k \<in> lane_keys h l \<Longrightarrow> key (h b) = Some k"
      using sp Cons b by (fastforce simp: lane_keys_def)
    moreover have "key (h b) = Some k \<Longrightarrow> Some k \<in> lane_keys h l"
      using sp Cons b by (force simp: lane_keys_def)
    ultimately show ?thesis by blast
  qed
qed

lemma wf_lane:
  assumes "wf s lv" "i < length lv"
  shows "lane_ok (store s) (lv ! i)" "snd (lv ! i) \<notin> set (fst (lv ! i))"
    "\<And>x. x \<in> nodes (lv ! i) \<Longrightarrow> x < fresh s"
    "\<And>j. j < length lv \<Longrightarrow> j \<noteq> i \<Longrightarrow> nodes (lv ! i) \<inter> nodes (lv ! j) = {}"
proof -
  from assms show "lane_ok (store s) (lv ! i)" by (simp add: wf_def lanes_ok_iff)
  from assms have m: "lv ! i \<in> set lv" by simp
  with assms(1) show "snd (lv ! i) \<notin> set (fst (lv ! i))" unfolding wf_def by blast
  from m assms(1) show "\<And>x. x \<in> nodes (lv ! i) \<Longrightarrow> x < fresh s" unfolding wf_def by blast
  fix j assume j: "j < length lv" "j \<noteq> i"
  from assms(1) have d: "\<And>i j. i < j \<Longrightarrow> j < length lv \<Longrightarrow> nodes (lv ! i) \<inter> nodes (lv ! j) = {}"
    unfolding wf_def by blast
  show "nodes (lv ! i) \<inter> nodes (lv ! j) = {}"
  proof (cases "i < j")
    case True
    with j d show ?thesis by blast
  next
    case False
    with j have "j < i" by simp
    from d[OF this assms(2)] show ?thesis by blast
  qed
qed

lemma ins_ctx_node:
  assumes "ins_ctx H k d iar s lv pes s'" "i < length lv"
  shows "node (pes ! i) \<in> set (fst (lv ! i))" "node (pes ! i) < fresh s"
    "\<And>x. x \<in> nodes (lv ! i) \<Longrightarrow> x \<noteq> node (pes ! i) \<Longrightarrow> x \<notin> node ` set pes"
proof -
  from assms have wf: "wf s lv" and len: "length pes = length lv"
    and ap: "\<And>j. j < length lv \<Longrightarrow> approach (store s) k (lv ! j) (node (pes ! j))"
    by (auto simp: ins_ctx_def)
  from ap[OF assms(2)] show a: "node (pes ! i) \<in> set (fst (lv ! i))" by (simp add: approach_def)
  then have "node (pes ! i) \<in> nodes (lv ! i)" by (simp add: nodes_def)
  then show "node (pes ! i) < fresh s" by (rule wf_lane(3)[OF wf assms(2)])
  fix x assume x: "x \<in> nodes (lv ! i)" "x \<noteq> node (pes ! i)"
  show "x \<notin> node ` set pes"
  proof
    assume "x \<in> node ` set pes"
    then obtain j where j: "j < length lv" "x = node (pes ! j)"
      using len by (auto simp: in_set_conv_nth)
    with x have ji: "j \<noteq> i" by auto
    from ap[OF j(1)] j(2) have "x \<in> nodes (lv ! j)" by (simp add: approach_def nodes_def)
    with x(1) wf_lane(4)[OF wf assms(2) j(1) ji] show False by blast
  qed
qed

lemma ins_ctx_frame:
  assumes "ins_ctx H k d iar s lv pes s'" "i < length lv" "x \<in> nodes (lv ! i)"
  shows "key (store s' x) = key (store s x)" "data (store s' x) = data (store s x)"
    "down (store s' x) = down (store s x)"
    "x \<noteq> node (pes ! i) \<Longrightarrow> right (store s' x) = right (store s x)"
    "x \<noteq> node (pes ! i) \<Longrightarrow> span_sl (store s' x) = span_sl (store s x)"
proof -
  from assms have wf: "wf s lv" and fr: "ins_frame H k s None pes s'" by (auto simp: ins_ctx_def)
  from wf_lane(3)[OF wf assms(2,3)] have lt: "x < fresh s" .
  with fr show "key (store s' x) = key (store s x)" "data (store s' x) = data (store s x)"
    "down (store s' x) = down (store s x)"
    by (simp_all add: ins_frame_def)
  assume "x \<noteq> node (pes ! i)"
  with ins_ctx_node(3)[OF assms(1,2,3)] have "x \<notin> node ` set pes" by simp
  with fr lt show "right (store s' x) = right (store s x)" "span_sl (store s' x) = span_sl (store s x)"
    by (simp_all add: ins_frame_def)
qed

lemma ins_ctx_absent:
  assumes "ins_ctx H k d iar s lv pes s'" "i < length lv"
  shows "Some k \<notin> lane_keys (store s) (lv ! i)"
proof -
  from assms have lo: "lanes_ok (store s) lv" and ab: "Some k \<notin> lane_keys (store s) (last lv)"
    by (auto simp: ins_ctx_def wf_def)
  from assms(2) have "lv ! i \<in> set lv" by simp
  from lane_keys_subset[OF lo this] ab show ?thesis by blast
qed

lemma ins_ctx_split:
  assumes "ins_ctx H k d iar s lv pes s'" "i < length lv"
  obtains pre post where "fst (lv ! i) = pre @ node (pes ! i) # post"
    "node (pes ! i) \<notin> set pre" "node (pes ! i) \<notin> set post"
    "\<forall>x \<in> set (pre @ [node (pes ! i)]). key (store s x) < Some k"
    "\<forall>x \<in> set post. Some k < key (store s x)"
    "right (store s (node (pes ! i))) = Some (case post of [] \<Rightarrow> snd (lv ! i) | b # _ \<Rightarrow> b)"
proof -
  from assms have wf: "wf s lv"
    and ap: "approach (store s) k (lv ! i) (node (pes ! i))"
    by (auto simp: ins_ctx_def)
  from approach_split[OF wf_lane(1)[OF wf assms(2)] ap] obtain pre post where
    sp: "fst (lv ! i) = pre @ node (pes ! i) # post"
    "node (pes ! i) \<notin> set pre" "node (pes ! i) \<notin> set post"
    "\<forall>x \<in> set pre. key (store s x) < key (store s (node (pes ! i)))"
    "key (store s (node (pes ! i))) < Some k"
    "\<forall>x \<in> set post. Some k \<le> key (store s x)"
    "right (store s (node (pes ! i))) = Some (case post of [] \<Rightarrow> snd (lv ! i) | b # _ \<Rightarrow> b)"
    by metis
  from sp(4,5) have lo: "\<forall>x \<in> set (pre @ [node (pes ! i)]). key (store s x) < Some k"
    by (auto intro: less_trans)
  have hi: "\<forall>x \<in> set post. Some k < key (store s x)"
  proof
    fix x assume x: "x \<in> set post"
    with sp(1) have "key (store s x) \<in> lane_keys (store s) (lv ! i)" by (simp add: lane_keys_def)
    with ins_ctx_absent[OF assms] have "key (store s x) \<noteq> Some k" by auto
    with sp(6) x show "Some k < key (store s x)" by (auto simp: less_le)
  qed
  from sp(1,2,3) lo hi sp(7) show ?thesis by (rule that)
qed

lemma ins_lanes_nth:
  "i < length lv \<Longrightarrow> ins_lanes H s lv pes ! i =
     (if level (pes ! i) < H
      then (ins_after (node (pes ! i)) (new_node H s pes i) (fst (lv ! i)), snd (lv ! i))
      else lv ! i)"
  by (simp add: ins_lanes_def)

lemma ins_lanes_length [simp]: "length (ins_lanes H s lv pes) = length lv"
  by (simp add: ins_lanes_def)

lemma ins_ctx_new:
  assumes "ins_ctx H k d iar s lv pes s'" "i < length lv" "level (pes ! i) < H"
  shows "fresh s \<le> new_node H s pes i" "new_node H s pes i < fresh s'"
    "key (store s' (new_node H s pes i)) = Some k"
proof -
  from assms have fr: "ins_frame H k s None pes s'" and len: "length pes = length lv"
    by (auto simp: ins_ctx_def)
  show a: "fresh s \<le> new_node H s pes i" by (simp add: new_node_def)
  have e: "pes = take i pes @ pes ! i # drop (Suc i) pes"
    using assms(2) len by (simp add: id_take_nth_drop)
  have "length (filter (\<lambda>pe. level pe < H) pes)
      = length (filter (\<lambda>pe. level pe < H) (take i pes @ pes ! i # drop (Suc i) pes))"
    by (rule arg_cong[where f="\<lambda>x. length (filter (\<lambda>pe. level pe < H) x)", OF e])
  also have "\<dots> = length (filter (\<lambda>pe. level pe < H) (take i pes)) + 1
      + length (filter (\<lambda>pe. level pe < H) (drop (Suc i) pes))"
    using assms(3) by simp
  finally have "length (filter (\<lambda>pe. level pe < H) (take i pes)) < length (filter (\<lambda>pe. level pe < H) pes)"
    by simp
  with fr show b: "new_node H s pes i < fresh s'" by (simp add: new_node_def ins_frame_def)
  from fr a b show "key (store s' (new_node H s pes i)) = Some k" by (simp add: ins_frame_def)
qed

lemma ins_lane_ok:
  assumes ctx: "ins_ctx H k d iar s lv pes s'" and i: "i < length lv"
  shows "lane_ok (store s') (ins_lanes H s lv pes ! i)"
proof -
  from ctx have wf: "wf s lv" and at: "ins_at H d iar s pes i s'"
    using i by (auto simp: ins_ctx_def)
  let ?a = "node (pes ! i)"
  let ?n = "new_node H s pes i"
  let ?t = "snd (lv ! i)"
  from ins_ctx_split[OF ctx i] obtain pre post where
    sp: "fst (lv ! i) = pre @ ?a # post" "?a \<notin> set pre" "?a \<notin> set post"
      "\<forall>x \<in> set (pre @ [?a]). key (store s x) < Some k"
      "\<forall>x \<in> set post. Some k < key (store s x)"
    by metis
  have ok: "lane_ok (store s) (pre @ ?a # post, ?t)"
    using wf_lane(1)[OF wf i] sp(1) by (metis prod.collapse)
  have nd: "set (pre @ ?a # post) \<union> {?t} = nodes (lv ! i)" by (simp add: nodes_def sp(1))
  have keys: "\<forall>x \<in> set (pre @ ?a # post) \<union> {?t}. key (store s' x) = key (store s x)"
    unfolding nd using ins_ctx_frame(1)[OF ctx i] by blast
  have rights: "\<forall>x \<in> set (pre @ post) \<union> {?t}. right (store s' x) = right (store s x)"
  proof
    fix x assume x: "x \<in> set (pre @ post) \<union> {?t}"
    with sp(1) have m: "x \<in> nodes (lv ! i)" by (auto simp: nodes_def)
    from x sp(2,3) wf_lane(2)[OF wf i] sp(1) have "x \<noteq> ?a" by auto
    with ins_ctx_frame(4)[OF ctx i m] show "right (store s' x) = right (store s x)" by simp
  qed
  show ?thesis
  proof (cases "level (pes ! i) < H")
    case True
    from at True have r: "right (store s' ?a) = Some ?n" "right (store s' ?n) = right (store s ?a)"
      by (simp_all add: ins_at_def Let_def new_node_def)
    have "?a \<noteq> ?t" using wf_lane(2)[OF wf i] sp(1) by auto
    with ok sp(4,5) ins_ctx_new(3)[OF ctx i True] r keys rights
    have "lane_ok (store s') (pre @ ?a # ?n # post, ?t)"
      by (intro lane_ok_ins[where h="store s" and k=k]) auto
    then show ?thesis using True i sp(1,2) by (simp add: ins_lanes_nth ins_after_split)
  next
    case False
    from at False have "right (store s' ?a) = right (store s ?a)"
      by (simp add: ins_at_def Let_def)
    with rights have "\<forall>x \<in> set (pre @ ?a # post) \<union> {?t}. right (store s' x) = right (store s x)"
      by auto
    with keys have "lane_ok (store s') (lv ! i) = lane_ok (store s) (lv ! i)"
      unfolding nd by (intro lane_ok_cong) (auto simp: nodes_def)
    then show ?thesis using False i wf_lane(1)[OF wf i] by (simp add: ins_lanes_nth)
  qed
qed

lemma set_ins_after: "a \<in> set ns \<Longrightarrow> set (ins_after a n ns) = insert n (set ns)"
  by (induction ns) auto

lemma hd_ins_after: "ns \<noteq> [] \<Longrightarrow> hd (ins_after a n ns) = hd ns"
  by (cases ns) auto

lemma ins_lanes_snd: "i < length lv \<Longrightarrow> snd (ins_lanes H s lv pes ! i) = snd (lv ! i)"
  by (simp add: ins_lanes_nth)

lemma ins_lanes_set:
  assumes "ins_ctx H k d iar s lv pes s'" "i < length lv"
  shows "set (fst (ins_lanes H s lv pes ! i)) =
     (if level (pes ! i) < H then insert (new_node H s pes i) (set (fst (lv ! i)))
      else set (fst (lv ! i)))"
  using assms ins_ctx_node(1)[OF assms] by (simp add: ins_lanes_nth set_ins_after)

lemma ins_ctx_level:
  assumes "ins_ctx H k d iar s lv pes s'"
  shows "\<And>i. Suc i < length lv \<Longrightarrow> level (pes ! i) < H \<Longrightarrow> level (pes ! Suc i) < H"
    "level (pes ! (length lv - 1)) < H"
proof -
  from assms have lv: "\<And>i. i < length lv \<Longrightarrow> level (pes ! i) = int (length lv - 1 - i)"
    and H: "1 \<le> H" and ne: "lv \<noteq> []"
    by (auto simp: ins_ctx_def wf_def)
  show "\<And>i. Suc i < length lv \<Longrightarrow> level (pes ! i) < H \<Longrightarrow> level (pes ! Suc i) < H"
    using lv by (simp add: Suc_lessD)
  from ne have "length lv - 1 < length lv" by (cases lv) auto
  from lv[OF this] H show "level (pes ! (length lv - 1)) < H" by simp
qed

lemma new_node_Suc:
  assumes "i < length pes"
  shows "new_node H s pes (Suc i) = (if level (pes ! i) < H then Suc (new_node H s pes i) else new_node H s pes i)"
  using assms by (simp add: new_node_def take_Suc_conv_app_nth)

lemma new_node_mono: "i \<le> j \<Longrightarrow> new_node H s pes i \<le> new_node H s pes j"
proof (induction j)
  case 0
  then show ?case by simp
next
  case (Suc j)
  show ?case
  proof (cases "i = Suc j")
    case True
    then show ?thesis by simp
  next
    case False
    with Suc have le: "new_node H s pes i \<le> new_node H s pes j" by simp
    have "new_node H s pes j \<le> new_node H s pes (Suc j)"
    proof (cases "j < length pes")
      case True
      then show ?thesis by (simp add: new_node_Suc)
    next
      case False
      then show ?thesis by (simp add: new_node_def)
    qed
    with le show ?thesis by simp
  qed
qed

lemma new_node_all:
  assumes "ins_ctx H k d iar s lv pes s'"
  shows "new_node H s pes (length lv) = fresh s'"
  using assms by (simp add: ins_ctx_def ins_frame_def new_node_def)

lemma ins_lanes_nodes:
  assumes "ins_ctx H k d iar s lv pes s'" "i < length lv"
  shows "nodes (ins_lanes H s lv pes ! i) =
     (if level (pes ! i) < H then insert (new_node H s pes i) (nodes (lv ! i)) else nodes (lv ! i))"
  using ins_lanes_set[OF assms] assms(2) by (auto simp: nodes_def ins_lanes_snd)

lemma ins_links:
  assumes ctx: "ins_ctx H k d iar s lv pes s'" and i: "Suc i < length lv"
  shows "links (store s') (ins_lanes H s lv pes ! i) (ins_lanes H s lv pes ! Suc i)"
proof -
  from i have i0: "i < length lv" by simp
  from ctx have wf: "wf s lv" and fr: "ins_frame H k s None pes s'" and len: "length pes = length lv"
    by (auto simp: ins_ctx_def)
  from wf i have lk: "links (store s) (lv ! i) (lv ! Suc i)" by (simp add: wf_def lanes_ok_iff)
  let ?P = "\<lambda>i. level (pes ! i) < H"
  let ?N = "new_node H s pes"
  have old: "\<exists>d \<in> set (fst (ins_lanes H s lv pes ! Suc i)).
      down (store s' x) = Some d \<and> key (store s' d) = key (store s' x)"
    if x: "x \<in> set (fst (lv ! i))" for x
  proof -
    from lk x obtain d where d: "d \<in> set (fst (lv ! Suc i))" "down (store s x) = Some d"
      "key (store s d) = key (store s x)"
      unfolding links_def by blast
    from x have xn: "x \<in> nodes (lv ! i)" by (simp add: nodes_def)
    from d(1) have dn: "d \<in> nodes (lv ! Suc i)" by (simp add: nodes_def)
    have "down (store s' x) = Some d" using ins_ctx_frame(3)[OF ctx i0 xn] d(2) by simp
    moreover have "key (store s' d) = key (store s' x)"
      using ins_ctx_frame(1)[OF ctx i0 xn] ins_ctx_frame(1)[OF ctx i dn] d(3) by simp
    moreover have "d \<in> set (fst (ins_lanes H s lv pes ! Suc i))"
      using d(1) by (simp add: ins_lanes_set[OF ctx i])
    ultimately show ?thesis by blast
  qed
  have new: "\<exists>d \<in> set (fst (ins_lanes H s lv pes ! Suc i)).
      down (store s' (?N i)) = Some d \<and> key (store s' d) = key (store s' (?N i))"
    if P: "?P i"
  proof -
    from ins_ctx_level(1)[OF ctx i P] have P': "?P (Suc i)" .
    have e: "?N (Suc i) = Suc (?N i)" using P i0 len by (simp add: new_node_Suc)
    from ins_ctx_new[OF ctx i P'] e have b: "Suc (?N i) < fresh s'"
      and k': "key (store s' (Suc (?N i))) = Some k" by simp_all
    from ins_ctx_new[OF ctx i0 P] fr b have "down (store s' (?N i)) = Some (Suc (?N i))"
      by (simp add: ins_frame_def)
    moreover have "Suc (?N i) \<in> set (fst (ins_lanes H s lv pes ! Suc i))"
      using P' e by (simp add: ins_lanes_set[OF ctx i])
    ultimately show ?thesis using k' ins_ctx_new(3)[OF ctx i0 P] by auto
  qed
  have tl: "down (store s' (snd (ins_lanes H s lv pes ! i))) = Some (snd (ins_lanes H s lv pes ! Suc i))"
  proof -
    have "snd (lv ! i) \<in> nodes (lv ! i)" by (simp add: nodes_def)
    from ins_ctx_frame(3)[OF ctx i0 this] lk show ?thesis
      using i i0 by (simp add: links_def ins_lanes_snd)
  qed
  show ?thesis unfolding links_def
    using old new tl by (auto simp: ins_lanes_set[OF ctx i0] split: if_splits)
qed

lemma ins_bottom:
  assumes ctx: "ins_ctx H k d iar s lv pes s'"
  shows "bottom_ok (store s') (last (ins_lanes H s lv pes))"
proof -
  from ctx have wf: "wf s lv" and fr: "ins_frame H k s None pes s'" and len: "length pes = length lv"
    by (auto simp: ins_ctx_def)
  from wf have ne: "lv \<noteq> []" and bo: "bottom_ok (store s) (last lv)" by (auto simp: wf_def lanes_ok_iff)
  let ?i = "length lv - 1"
  from ne have i: "?i < length lv" by (cases lv) auto
  have ne': "ins_lanes H s lv pes \<noteq> []" using ne by (simp add: ins_lanes_def)
  have l: "last (ins_lanes H s lv pes) = ins_lanes H s lv pes ! ?i" "last lv = lv ! ?i"
    using last_conv_nth[OF ne'] last_conv_nth[OF ne] by simp_all
  from ins_ctx_level(2)[OF ctx] have P: "level (pes ! ?i) < H" .
  have si: "Suc ?i = length lv" using i by simp
  have "new_node H s pes (Suc ?i) = Suc (new_node H s pes ?i)"
    using P i len by (simp add: new_node_Suc)
  then have e: "Suc (new_node H s pes ?i) = fresh s'"
    unfolding si using new_node_all[OF ctx] by simp
  from ins_ctx_new[OF ctx i P] fr e have nw: "down (store s' (new_node H s pes ?i)) = None"
    by (simp add: ins_frame_def)
  have old: "down (store s' x) = None" if "x \<in> nodes (lv ! ?i)" for x
    using ins_ctx_frame(3)[OF ctx i that] bo that l(2) by (auto simp: bottom_ok_def nodes_def)
  have st: "set (fst (ins_lanes H s lv pes ! ?i)) = insert (new_node H s pes ?i) (set (fst (lv ! ?i)))"
    using ins_lanes_set[OF ctx i] P by simp
  have sn: "snd (ins_lanes H s lv pes ! ?i) = snd (lv ! ?i)" using i by (rule ins_lanes_snd)
  show ?thesis unfolding l bottom_ok_def st sn
    using old nw by (auto simp: nodes_def)
qed

lemma ins_disjoint:
  assumes ctx: "ins_ctx H k d iar s lv pes s'" and ij: "i < j" "j < length lv"
  shows "nodes (ins_lanes H s lv pes ! i) \<inter> nodes (ins_lanes H s lv pes ! j) = {}"
proof -
  from ij have i: "i < length lv" by simp
  from ctx have wf: "wf s lv" and len: "length pes = length lv" by (auto simp: ins_ctx_def)
  from wf_lane(4)[OF wf i ij(2)] ij have d: "nodes (lv ! i) \<inter> nodes (lv ! j) = {}" by simp
  have o: "new_node H s pes m \<notin> nodes (lv ! m')" if "m' < length lv" for m m'
  proof
    assume "new_node H s pes m \<in> nodes (lv ! m')"
    from wf_lane(3)[OF wf that this] show False by (simp add: new_node_def)
  qed
  have n: "new_node H s pes i \<noteq> new_node H s pes j" if "level (pes ! i) < H"
  proof -
    have "Suc (new_node H s pes i) = new_node H s pes (Suc i)"
      using that i len by (simp add: new_node_Suc)
    also have "\<dots> \<le> new_node H s pes j" using ij by (intro new_node_mono) simp
    finally show ?thesis by simp
  qed
  show ?thesis
    using d o[OF i] o[OF ij(2)] n
    by (auto simp: ins_lanes_nodes[OF ctx i] ins_lanes_nodes[OF ctx ij(2)] split: if_splits)
qed

lemma ins_bounds:
  assumes ctx: "ins_ctx H k d iar s lv pes s'" and i: "i < length lv"
  shows "snd (ins_lanes H s lv pes ! i) \<notin> set (fst (ins_lanes H s lv pes ! i))"
    "\<forall>x \<in> nodes (ins_lanes H s lv pes ! i). x < fresh s'"
proof -
  from ctx have wf: "wf s lv" and fr: "fresh s \<le> fresh s'" by (auto simp: ins_ctx_def ins_frame_def)
  have t: "snd (lv ! i) \<in> nodes (lv ! i)" by (simp add: nodes_def)
  from wf_lane(3)[OF wf i t] have "snd (lv ! i) \<noteq> new_node H s pes i" by (simp add: new_node_def)
  with wf_lane(2)[OF wf i] show "snd (ins_lanes H s lv pes ! i) \<notin> set (fst (ins_lanes H s lv pes ! i))"
    using i by (simp add: ins_lanes_set[OF ctx i] ins_lanes_snd)
  show "\<forall>x \<in> nodes (ins_lanes H s lv pes ! i). x < fresh s'"
  proof
    fix x assume x: "x \<in> nodes (ins_lanes H s lv pes ! i)"
    show "x < fresh s'"
    proof (cases "x \<in> nodes (lv ! i)")
      case True
      from wf_lane(3)[OF wf i True] fr show ?thesis by simp
    next
      case False
      with x have "level (pes ! i) < H" "x = new_node H s pes i"
        by (auto simp: ins_lanes_nodes[OF ctx i] split: if_splits)
      with ins_ctx_new(2)[OF ctx i] show ?thesis by simp
    qed
  qed
qed

lemma model_insert_new:
  "\<forall>e \<in> set xs. fst e < k \<Longrightarrow> \<forall>e \<in> set ys. k < fst e \<Longrightarrow>
     model_insert k d (xs @ ys) = xs @ (k, d) # ys"
  by (induction xs) (auto, cases ys, auto)

lemma model_insert_replace:
  "\<forall>e \<in> set xs. fst e < k \<Longrightarrow> model_insert k d (xs @ (k, d0) # ys) = xs @ (k, d) # ys"
  by (induction xs) auto

lemma content_eq: "content h lv = map (entry h) (tl (fst (last lv)))"
  by (simp add: content_def entry_def)

lemma lane_key_Some:
  assumes "lane_ok h l" "x \<in> set (tl (fst l))"
  shows "key (h x) = Some (fst (entry h x))"
proof -
  from assms(1) have ne: "fst l \<noteq> []"
    and srt: "sorted_wrt (<) (map (\<lambda>a. key (h a)) (fst l))" by (auto simp: lane_ok_def)
  from ne have e: "fst l = hd (fst l) # tl (fst l)" by simp
  from srt have "sorted_wrt (<) (map (\<lambda>a. key (h a)) (hd (fst l) # tl (fst l)))"
    using e by simp
  with assms(2) have "key (h (hd (fst l))) < key (h x)" by simp
  then show ?thesis by (cases "key (h x)") (auto simp: entry_def)
qed

lemma tl_split: "tl (pre @ a # post) = tl (pre @ [a]) @ post"
  by (cases pre) simp_all

lemma cnt_append: "cnt (xs @ ys) ko = cnt xs ko + cnt ys ko"
  by (simp add: cnt_def)

lemma cnt_all: "\<forall>y \<in> set K. Some y \<le> ko \<Longrightarrow> cnt K ko = int (length K)"
  by (simp add: cnt_def)

lemma cnt_none: "\<forall>y \<in> set K. \<not> Some y \<le> ko \<Longrightarrow> cnt K ko = 0"
  by (simp add: cnt_def)

text \<open>The keys of a lane split at the approach point of \<open>k\<close>.\<close>

lemma lane_keys_split:
  assumes ok: "lane_ok h (pre @ a # post, t)"
    and lo: "\<forall>x \<in> set (pre @ [a]). key (h x) < Some k"
    and hi: "\<forall>x \<in> set post. Some k \<le> key (h x)"
  defines "Kl \<equiv> map (\<lambda>x. fst (entry h x)) (tl (pre @ [a]))"
    and "Kr \<equiv> map (\<lambda>x. fst (entry h x)) post"
  shows "\<forall>y \<in> set Kl. y < k" "\<forall>y \<in> set Kr. k \<le> y"
    "cnt Kl (key (h a)) = int (length Kl)" "cnt Kr (key (h a)) = 0"
proof -
  have ks: "key (h x) = Some (fst (entry h x))" if "x \<in> set (tl (pre @ a # post))" for x
    using lane_key_Some[OF ok] that by simp
  have l: "x \<in> set (pre @ [a])" "x \<in> set (tl (pre @ a # post))" if "x \<in> set (tl (pre @ [a]))" for x
    using that by (cases pre; auto)+
  have r: "x \<in> set (tl (pre @ a # post))" if "x \<in> set post" for x
    using that by (cases pre) auto
  show a: "\<forall>y \<in> set Kl. y < k"
    unfolding Kl_def using lo l ks by fastforce
  show b: "\<forall>y \<in> set Kr. k \<le> y"
    unfolding Kr_def using hi r ks by fastforce
  from ok have srt: "sorted_wrt (<) (map (\<lambda>a. key (h a)) (pre @ a # post))" by (simp add: lane_ok_def)
  have "\<forall>y \<in> set Kl. Some y \<le> key (h a)"
  proof
    fix y assume "y \<in> set Kl"
    then obtain x where x: "x \<in> set (tl (pre @ [a]))" "y = fst (entry h x)" by (auto simp: Kl_def)
    from l[OF x(1)] ks have kx: "key (h x) = Some y" using x(2) by simp
    from l(1)[OF x(1)] srt have "key (h x) \<le> key (h a)"
      by (auto simp: sorted_wrt_append less_imp_le)
    with kx show "Some y \<le> key (h a)" by simp
  qed
  then show "cnt Kl (key (h a)) = int (length Kl)" by (rule cnt_all)
  have "\<forall>y \<in> set Kr. \<not> Some y \<le> key (h a)"
  proof
    fix y assume "y \<in> set Kr"
    then obtain x where x: "x \<in> set post" "y = fst (entry h x)" by (auto simp: Kr_def)
    from r[OF x(1)] ks have kx: "key (h x) = Some y" using x(2) by simp
    from x(1) srt have "key (h a) < key (h x)" by (auto simp: sorted_wrt_append)
    with kx show "\<not> Some y \<le> key (h a)" by simp
  qed
  then show "cnt Kr (key (h a)) = 0" by (rule cnt_none)
qed

lemma ins_content_split:
  assumes ctx: "ins_ctx H k d iar s lv pes s'"
  obtains L R where "content (store s) lv = L @ R" "content (store s') (ins_lanes H s lv pes) = L @ (k, d) # R"
    "\<forall>e \<in> set L. fst e < k" "\<forall>e \<in> set R. k < fst e"
    "cnt (map fst L) (key (store s (node (last pes)))) = int (length L)"
    "cnt (map fst R) (key (store s (node (last pes)))) = 0"
    "\<forall>x \<in> set (tl (fst (last (ins_lanes H s lv pes)))). data (store s' x) \<noteq> None"
proof -
  from ctx have wf: "wf s lv" and len: "length pes = length lv" by (auto simp: ins_ctx_def)
  from wf have ne: "lv \<noteq> []" by (auto simp: wf_def lanes_ok_iff)
  define i where "i = length lv - 1"
  define a where "a = node (pes ! i)"
  define n where "n = new_node H s pes i"
  define t where "t = snd (lv ! i)"
  from ne have i: "i < length lv" unfolding i_def by (cases lv) auto
  have ne': "ins_lanes H s lv pes \<noteq> []" using ne by (simp add: ins_lanes_def)
  have l: "last (ins_lanes H s lv pes) = ins_lanes H s lv pes ! i" "last lv = lv ! i"
    unfolding i_def using last_conv_nth[OF ne'] last_conv_nth[OF ne] by simp_all
  from ne len have "pes \<noteq> []" by auto
  from last_conv_nth[OF this] len have lp: "last pes = pes ! i" unfolding i_def by simp
  from ins_ctx_level(2)[OF ctx] have P: "level (pes ! i) < H" unfolding i_def .
  from ctx i have "level (pes ! i) = int (length lv - 1 - i)" by (simp add: ins_ctx_def)
  then have lv0: "level (pes ! i) = 0" by (simp add: i_def)
  from ctx i have at: "ins_at H d iar s pes i s'" by (simp add: ins_ctx_def)
  from ins_ctx_split[OF ctx i] obtain pre post where
    sp: "fst (lv ! i) = pre @ a # post" "a \<notin> set pre" "a \<notin> set post"
      "\<forall>x \<in> set (pre @ [a]). key (store s x) < Some k"
      "\<forall>x \<in> set post. Some k < key (store s x)"
    unfolding a_def by metis
  have ok: "lane_ok (store s) (pre @ a # post, t)"
    using wf_lane(1)[OF wf i] sp(1) unfolding t_def by (metis prod.collapse)
  have new: "fst (ins_lanes H s lv pes ! i) = pre @ a # n # post"
    using P i sp(1,2) by (simp add: ins_lanes_nth ins_after_split a_def[symmetric] n_def[symmetric])
  define L where "L = map (entry (store s)) (tl (pre @ [a]))"
  define R where "R = map (entry (store s)) post"
  have tl1: "tl (pre @ a # post) = tl (pre @ [a]) @ post" by (cases pre) simp_all
  have tl2: "tl (pre @ a # n # post) = tl (pre @ [a]) @ n # post" by (cases pre) simp_all
  have sub: "set (tl (pre @ [a])) \<subseteq> set (pre @ [a])" by (cases pre) auto
  have old: "entry (store s') x = entry (store s) x" if "x \<in> set (pre @ a # post)" for x
  proof -
    from that sp(1) have "x \<in> nodes (lv ! i)" by (simp add: nodes_def)
    from ins_ctx_frame(1,2)[OF ctx i this] show ?thesis by (simp add: entry_def)
  qed
  have en: "entry (store s') n = (k, d)"
    using ins_ctx_new(3)[OF ctx i P] at P lv0 by (simp add: entry_def ins_at_def Let_def new_node_def n_def)
  have c: "content (store s) lv = L @ R"
    unfolding content_eq l sp(1) tl1 L_def R_def by simp
  have "map (entry (store s')) (tl (pre @ [a])) = L" "map (entry (store s')) post = R"
    unfolding L_def R_def using old sub by auto
  then have c': "content (store s') (ins_lanes H s lv pes) = L @ (k, d) # R"
    unfolding content_eq l new tl2 using en by simp
  have lo: "\<forall>x \<in> set (pre @ [a]). key (store s x) < Some k" by (rule sp(4))
  have hi: "\<forall>x \<in> set post. Some k \<le> key (store s x)" using sp(5) by (auto simp: less_imp_le)
  have m: "map fst L = map (\<lambda>x. fst (entry (store s) x)) (tl (pre @ [a]))"
      "map fst R = map (\<lambda>x. fst (entry (store s) x)) post"
    by (simp_all add: L_def R_def)
  from lane_keys_split[OF ok lo hi] have
    ks: "\<forall>y \<in> set (map fst L). y < k" "\<forall>y \<in> set (map fst R). k \<le> y"
      "cnt (map fst L) (key (store s a)) = int (length (map fst L))"
      "cnt (map fst R) (key (store s a)) = 0"
    unfolding m by blast+
  have kR: "\<forall>e \<in> set R. k < fst e"
  proof
    fix e assume "e \<in> set R"
    then obtain x where x: "x \<in> set post" "e = entry (store s) x" by (auto simp: R_def)
    then have "x \<in> set (tl (fst (pre @ a # post, t)))" by (simp add: tl1)
    from lane_key_Some[OF ok this] sp(5) x show "k < fst e" by auto
  qed
  have dt: "\<forall>x \<in> set (tl (fst (last (ins_lanes H s lv pes)))). data (store s' x) \<noteq> None"
  proof
    fix x assume "x \<in> set (tl (fst (last (ins_lanes H s lv pes))))"
    then have x: "x = n \<or> x \<in> set (tl (pre @ a # post))" unfolding l new tl1 tl2 by auto
    show "data (store s' x) \<noteq> None"
    proof (cases "x = n")
      case True
      with at P lv0 show ?thesis by (simp add: ins_at_def Let_def new_node_def n_def)
    next
      case False
      with x have m: "x \<in> set (tl (fst (last lv)))" by (simp add: l sp(1))
      then have "x \<in> set (fst (lv ! i))" unfolding l by (rule list.set_sel(2)[rotated]) (simp add: sp(1))
      then have "x \<in> nodes (lv ! i)" by (simp add: nodes_def)
      from ins_ctx_frame(2)[OF ctx i this] wf m show ?thesis by (simp add: wf_def)
    qed
  qed
  show ?thesis
    using c c' ks kR dt by (intro that[of L R]) (auto simp: lp a_def)
qed

lemma ins_spans:
  assumes ctx: "ins_ctx H k d iar s lv pes s'" and i: "i < length lv"
    and sp: "spans_ok ex (store s) K (fst (lv ! i))"
    and rk: "rank (pes ! i) = cnt K (key (store s (node (pes ! i)))) - 1"
    and iar: "iar = cnt K (Some k)"
    and K': "\<And>ko. cnt K' ko = cnt K ko + (if Some k \<le> ko then 1 else 0)"
       "length K' = Suc (length K)"
  shows "spans_ok ex (store s') K' (fst (ins_lanes H s lv pes ! i))"
proof -
  define a where "a = node (pes ! i)"
  define n where "n = new_node H s pes i"
  from ctx have wf: "wf s lv" and at: "ins_at H d iar s pes i s'"
    using i by (auto simp: ins_ctx_def)
  from ins_ctx_split[OF ctx i] obtain pre post where
    sp': "fst (lv ! i) = pre @ a # post" "a \<notin> set pre" "a \<notin> set post"
      "\<forall>x \<in> set (pre @ [a]). key (store s x) < Some k"
      "\<forall>x \<in> set post. Some k < key (store s x)"
    unfolding a_def by metis
  have keys: "\<forall>x \<in> set (pre @ a # post). key (store s' x) = key (store s x)"
    using ins_ctx_frame(1)[OF ctx i] sp'(1) by (auto simp: nodes_def)
  have spans: "\<forall>x \<in> set (pre @ post). span_sl (store s' x) = span_sl (store s x)"
  proof
    fix x assume x: "x \<in> set (pre @ post)"
    with sp'(1) have m: "x \<in> nodes (lv ! i)" by (auto simp: nodes_def)
    from x sp'(2,3) have "x \<noteq> node (pes ! i)" by (auto simp: a_def)
    with ins_ctx_frame(5)[OF ctx i m] show "span_sl (store s' x) = span_sl (store s x)" by simp
  qed
  from sp sp'(1) have sp0: "spans_ok ex (store s) K (pre @ a # post)" by simp
  show ?thesis
  proof (cases "level (pes ! i) < H")
    case True
    from at True have v: "span_sl (store s' a) = cnt K (Some k) + 1 - cnt K (key (store s a))"
        "span_sl (store s' n) = span_sl (store s a) - cnt K (Some k) + cnt K (key (store s a))"
      using rk iar by (simp_all add: ins_at_def Let_def new_node_def a_def n_def)
    have kn: "key (store s' n) = Some k" using ins_ctx_new(3)[OF ctx i True] by (simp add: n_def)
    have "spans_ok ex (store s') K' (pre @ a # n # post)"
      using sp0 sp'(4,5) K' kn keys spans v by (rule spans_ins)
    then show ?thesis using True i sp'(1,2)
      by (simp add: ins_lanes_nth ins_after_split a_def[symmetric] n_def[symmetric])
  next
    case False
    from at False have v: "span_sl (store s' a) = span_sl (store s a) + 1"
      by (simp add: ins_at_def Let_def a_def)
    have K1: "\<And>ko. cnt K' ko = cnt K ko + (if Some k \<le> ko then 1 else 0)" by (rule K')
    have K2: "ex \<longrightarrow> int (length K') = int (length K) + 1" using K'(2) by simp
    have "spans_ok ex (store s') K' (pre @ a # post)"
      using sp0 sp'(4,5) K1 K2 keys spans v by (rule spans_bump)
    then show ?thesis using False i sp'(1) by (simp add: ins_lanes_nth)
  qed
qed

lemma wf_approach_nodes:
  assumes wf: "wf s lv" and len: "length pes = length lv"
    and ap: "\<And>i. i < length lv \<Longrightarrow> approach (store s) k (lv ! i) (node (pes ! i))"
  shows "\<forall>pe \<in> set pes. node pe < fresh s" "distinct (map node pes)"
proof -
  have m: "node (pes ! i) \<in> nodes (lv ! i)" if "i < length lv" for i
    using ap[OF that] by (simp add: approach_def nodes_def)
  show "\<forall>pe \<in> set pes. node pe < fresh s"
  proof
    fix pe assume "pe \<in> set pes"
    then obtain i where i: "i < length lv" "pe = pes ! i" using len by (auto simp: in_set_conv_nth)
    from wf_lane(3)[OF wf i(1) m[OF i(1)]] i(2) show "node pe < fresh s" by simp
  qed
  show "distinct (map node pes)"
    unfolding distinct_conv_nth
  proof (intro allI impI)
    fix i j assume ij: "i < length (map node pes)" "j < length (map node pes)" "i \<noteq> j"
    then have i: "i < length lv" and j: "j < length lv" using len by simp_all
    from wf_lane(4)[OF wf i j] ij(3) m[OF i] m[OF j]
    have "node (pes ! i) \<noteq> node (pes ! j)" by auto
    then show "map node pes ! i \<noteq> map node pes ! j" using i j len by simp
  qed
qed

lemma insert_rest_new:
  assumes inv: "inv sp ex s lv" and H: "1 \<le> H" "H \<le> int (length lv)"
    and ab: "Some k \<notin> lane_keys (store s) (last lv)"
  shows "\<exists>s' lv'. insert_rest H k d s = Some (Inr s') \<and> inv sp ex s' lv'
     \<and> content (store s') lv' = model_insert k d (content (store s) lv)"
proof -
  define K where "K = map fst (content (store s) lv)"
  from inv have wf: "wf s lv" by (simp add: inv_def)
  from wf have ne: "lv \<noteq> []" and lo: "lanes_ok (store s) lv" by (auto simp: wf_def lanes_ok_iff)
  from findInsertPath_wf[OF wf, of k ex K] obtain tr pes where
    fp: "findInsertPath s k = Some (Inr (map Some pes))"
    and tr: "trace_ok (store s) k lv tr pes"
    and rk: "(\<forall>l \<in> set lv. spans_ok ex (store s) K (fst l)) \<longrightarrow> ranks_ok (store s) K pes"
    by blast
  from tr have len: "length pes = length lv" by (simp add: trace_ok_def)
  with ne have pne: "pes \<noteq> []" by auto
  define i0 where "i0 = length lv - 1"
  from ne have i0: "i0 < length lv" unfolding i0_def by (cases lv) auto
  have lst: "last pes = pes ! i0" "last lv = lv ! i0"
    unfolding i0_def using last_conv_nth[OF pne] last_conv_nth[OF ne] len by simp_all
  have ap: "\<And>i. i < length lv \<Longrightarrow> approach (store s) k (lv ! i) (node (pes ! i))"
    and lvl: "\<And>i. i < length lv \<Longrightarrow> level (pes ! i) = int (length lv - 1 - i)"
    using trace_ok_nth[OF tr] by blast+
  from ap[OF i0] obtain b where b: "right (store s (node (last pes))) = Some b"
    by (auto simp: approach_def lst)
  from approach_right_key[OF wf_lane(1)[OF wf i0] ap[OF i0]] b ab
  have nk: "key (store s b) \<noteq> Some k" by (simp add: lst)
  define iar where "iar = rank (last pes) + 1"
  define s' where "s' = fst (foldl (insert_step H k d iar) (s, None) (map Some pes))"
  define s'' where "s'' = s'\<lparr>itemsCount := itemsCount s' + 1\<rparr>"
  have res: "insert_rest H k d s = Some (Inr s'')"
    using fp pne b nk
    by (simp add: insert_rest_def lastElement_def last_map Let_def split_beta s''_def s'_def iar_def)
  from wf_approach_nodes[OF wf len ap] have bd: "\<forall>pe \<in> set pes. node pe < fresh s"
    and ds: "distinct (map node pes)" by blast+
  have fr: "ins_frame H k s None pes s'"
    unfolding s'_def using bd by (intro ins_fold) simp_all
  have at: "\<And>i. i < length lv \<Longrightarrow> ins_at H d iar s pes i s'"
    unfolding s'_def using bd ds len by (intro ins_fold_at) simp_all
  have ctx: "ins_ctx H k d iar s lv pes s'"
    unfolding ins_ctx_def using wf H len ap lvl ab fr at by blast
  define lv' where "lv' = ins_lanes H s lv pes"
  have len': "length lv' = length lv" by (simp add: lv'_def)
  have ne': "lv' \<noteq> []" using ne len' by auto
  have st: "store s'' = store s'" "fresh s'' = fresh s'" "head s'' = head s'"
    "topRight s'' = topRight s'" "levelsCount s'' = levelsCount s'"
    by (simp_all add: s''_def)
  have lanes: "lanes_ok (store s') lv'"
    unfolding lanes_ok_iff lv'_def
    using ne' ins_lane_ok[OF ctx] ins_links[OF ctx] ins_bottom[OF ctx]
    by (simp add: lv'_def)
  have bounds: "\<forall>l \<in> set lv'. snd l \<notin> set (fst l) \<and> (\<forall>x \<in> nodes l. x < fresh s')"
  proof
    fix l assume "l \<in> set lv'"
    then obtain i where i: "i < length lv" "l = lv' ! i" using len' by (auto simp: in_set_conv_nth)
    from ins_bounds[OF ctx i(1)] i(2)
    show "snd l \<notin> set (fst l) \<and> (\<forall>x \<in> nodes l. x < fresh s')" by (simp add: lv'_def)
  qed
  have disj: "\<forall>i j. i < j \<longrightarrow> j < length lv' \<longrightarrow> nodes (lv' ! i) \<inter> nodes (lv' ! j) = {}"
    using ins_disjoint[OF ctx] by (simp add: lv'_def)
  have hd0: "0 < length lv" using ne by simp
  have f0: "fst (lv ! 0) \<noteq> []" using wf_lane(1)[OF wf hd0] by (simp add: lane_ok_def)
  have hd: "hd (fst (hd lv')) = hd (fst (hd lv))" "snd (hd lv') = snd (hd lv)"
    using hd0 f0 ne ne' by (simp_all add: hd_conv_nth lv'_def ins_lanes_nth hd_ins_after)
  from fr wf have flds: "head s' = hd (fst (hd lv'))" "topRight s' = snd (hd lv')"
      "levelsCount s' = int (length lv')"
    unfolding hd len' by (simp_all add: ins_frame_def wf_def)
  from ins_content_split[OF ctx] obtain L R where
    c: "content (store s) lv = L @ R" "content (store s') lv' = L @ (k, d) # R"
      "\<forall>e \<in> set L. fst e < k" "\<forall>e \<in> set R. k < fst e"
      "cnt (map fst L) (key (store s (node (last pes)))) = int (length L)"
      "cnt (map fst R) (key (store s (node (last pes)))) = 0"
      "\<forall>x \<in> set (tl (fst (last lv'))). data (store s' x) \<noteq> None"
    unfolding lv'_def by metis
  have wf': "wf s'' lv'"
    unfolding wf_def st using lanes bounds disj flds c(7) by blast
  have cont: "content (store s'') lv' = model_insert k d (content (store s) lv)"
    unfolding st c(1,2) using c(3,4) by (simp add: model_insert_new)
  define K' where "K' = map fst (content (store s') lv')"
  have K'1: "\<And>ko. cnt K' ko = cnt K ko + (if Some k \<le> ko then 1 else 0)"
    unfolding K'_def K_def c(1,2) by (simp add: cnt_def)
  have K'2: "length K' = Suc (length K)" unfolding K'_def K_def c(1,2) by simp
  have spans: "\<forall>l \<in> set lv'. spans_ok ex (store s') K' (fst l)"
    if sp: "\<forall>l \<in> set lv. spans_ok ex (store s) K (fst l)"
  proof
    fix l assume "l \<in> set lv'"
    then obtain i where i: "i < length lv" "l = lv' ! i" using len' by (auto simp: in_set_conv_nth)
    from sp i(1) have s1: "spans_ok ex (store s) K (fst (lv ! i))" by simp
    from rk sp have ro: "ranks_ok (store s) K pes" by simp
    then have r1: "rank (pes ! i) = cnt K (key (store s (node (pes ! i)))) - 1"
      using i(1) len by (simp add: ranks_ok_def)
    from ro pne have "rank (last pes) = cnt K (key (store s (node (last pes)))) - 1"
      by (simp add: ranks_ok_def)
    also have "cnt K (key (store s (node (last pes)))) = int (length L)"
      unfolding K_def c(1) using c(5,6) by (simp add: cnt_append)
    also have "int (length L) = cnt K (Some k)"
    proof -
      have "cnt (map fst L) (Some k) = int (length (map fst L))"
        using c(3) by (intro cnt_all) (auto simp: less_imp_le)
      moreover have "cnt (map fst R) (Some k) = 0"
        using c(4) by (intro cnt_none) auto
      ultimately show ?thesis unfolding K_def c(1) by (simp add: cnt_append)
    qed
    finally have r2: "iar = cnt K (Some k)" by (simp add: iar_def)
    from ins_spans[OF ctx i(1) s1 r1 r2 K'1 K'2] i(2)
    show "spans_ok ex (store s') K' (fst l)" by (simp add: lv'_def)
  qed
  have cnt: "itemsCount s'' = int (length (content (store s'') lv'))"
    if "itemsCount s = int (length (content (store s) lv))"
    using that fr unfolding st c(1,2) by (simp add: s''_def ins_frame_def)
  have "inv sp ex s'' lv'"
    unfolding inv_def using wf' spans cnt inv
    by (auto simp: st K'_def K_def inv_def)
  with res cont show ?thesis by blast
qed

lemma lanes_ok_cong:
  assumes "\<forall>l \<in> set lv. \<forall>x \<in> nodes l.
      key (h' x) = key (h x) \<and> right (h' x) = right (h x) \<and> down (h' x) = down (h x)"
  shows "lanes_ok h' lv = lanes_ok h lv"
proof -
  have a: "lane_ok h' (lv ! i) = lane_ok h (lv ! i)" if "i < length lv" for i
    using assms that by (intro lane_ok_cong) (auto simp: nodes_def)
  have b: "links h' (lv ! i) (lv ! Suc i) = links h (lv ! i) (lv ! Suc i)" if "Suc i < length lv" for i
  proof -
    from that have m: "lv ! i \<in> set lv" "lv ! Suc i \<in> set lv" by simp_all
    with assms have "\<forall>x \<in> nodes (lv ! i). down (h' x) = down (h x) \<and> key (h' x) = key (h x)"
      "\<forall>x \<in> nodes (lv ! Suc i). key (h' x) = key (h x)" by blast+
    then show ?thesis unfolding links_def nodes_def by auto
  qed
  have c: "bottom_ok h' (last lv) = bottom_ok h (last lv)" if "lv \<noteq> []"
  proof -
    from that have "last lv \<in> set lv" by simp
    with assms have "\<forall>x \<in> nodes (last lv). down (h' x) = down (h x)" by blast
    then show ?thesis unfolding bottom_ok_def nodes_def by auto
  qed
  show ?thesis unfolding lanes_ok_iff using a b c by auto
qed

lemma spans_ok_cong:
  assumes "\<forall>x \<in> set ns. span_sl (h' x) = span_sl (h x) \<and> key (h' x) = key (h x)"
  shows "spans_ok ex h' K ns = spans_ok ex h K ns"
  using assms by (intro spans_shift[where c=0]) auto

lemma spans_ok_weaken: "spans_ok ex h K ns \<Longrightarrow> spans_ok False h K ns"
  by (induction ns rule: induct_list012) auto

lemma set_tl_subset: "x \<in> set (tl xs) \<Longrightarrow> x \<in> set xs"
  by (cases xs) auto

lemma content_cong:
  assumes "\<forall>x \<in> nodes (last lv). key (h' x) = key (h x) \<and> data (h' x) = data (h x)"
  shows "content h' lv = content h lv"
proof -
  have "set (tl (fst (last lv))) \<subseteq> nodes (last lv)"
    by (cases "fst (last lv)") (auto simp: nodes_def)
  with assms show ?thesis unfolding content_def by (intro map_cong) auto
qed

lemma addLevels_loop_Suc: "addLevels_loop (Suc n) s = addLevels_loop n (addLevel s)"
proof -
  have "(let (t, s1) = new_SkipListNode
            \<lparr>down = Some (topRight s), right = None, key = None, data = None, span_sl = 0\<rparr> s;
          s2 = s1\<lparr>topRight := t\<rparr>;
          (hd', s3) = new_SkipListNode
            \<lparr>down = Some (head s2), right = Some (topRight s2), key = None, data = None,
             span_sl = itemsCount s2 + 1\<rparr> s2;
          s4 = s3\<lparr>head := hd'\<rparr>
      in s4) = addLevel s"
    by (simp add: new_SkipListNode_def addLevel_def Let_def)
  then show ?thesis by (simp add: Let_def split_beta)
qed

lemma addLevel_fields [simp]:
  "fresh (addLevel s) = Suc (Suc (fresh s))" "head (addLevel s) = Suc (fresh s)"
  "topRight (addLevel s) = fresh s" "itemsCount (addLevel s) = itemsCount s"
  "x < fresh s \<Longrightarrow> store (addLevel s) x = store s x"
  "store (addLevel s) (fresh s) =
     \<lparr>down = Some (topRight s), right = None, key = None, data = None, span_sl = 0\<rparr>"
  "store (addLevel s) (Suc (fresh s)) =
     \<lparr>down = Some (head s), right = Some (fresh s), key = None, data = None,
      span_sl = itemsCount s + 1\<rparr>"
  by (simp_all add: addLevel_def)

lemma addLevel_inv:
  assumes inv: "inv sp ex (s\<lparr>levelsCount := int (length lv)\<rparr>) lv"
  shows "inv sp ex ((addLevel s)\<lparr>levelsCount := int (Suc (length lv))\<rparr>)
           (([Suc (fresh s)], fresh s) # lv)"
    and "content (store (addLevel s)) (([Suc (fresh s)], fresh s) # lv) = content (store s) lv"
proof -
  define f where "f = fresh s"
  define new :: lane where "new = ([Suc f], f)"
  define h where "h = store s"
  define h' where "h' = store (addLevel s)"
  from inv have wf: "wf (s\<lparr>levelsCount := int (length lv)\<rparr>) lv" by (simp add: inv_def)
  then have lo: "lanes_ok h lv" and ne: "lv \<noteq> []"
    and bd: "\<And>l x. l \<in> set lv \<Longrightarrow> x \<in> nodes l \<Longrightarrow> x < f"
    and tn: "\<forall>l \<in> set lv. snd l \<notin> set (fst l)"
    and dj: "\<And>i j. i < j \<Longrightarrow> j < length lv \<Longrightarrow> nodes (lv ! i) \<inter> nodes (lv ! j) = {}"
    and hd: "head s = hd (fst (hd lv))" "topRight s = snd (hd lv)"
    and dt: "\<forall>x \<in> set (tl (fst (last lv))). data (h x) \<noteq> None"
    unfolding wf_def h_def f_def by (auto simp: lanes_ok_iff)
  have same: "h' x = h x" if "l \<in> set lv" "x \<in> nodes l" for l x
    using bd[OF that] by (simp add: h'_def h_def f_def)
  have lo': "lanes_ok h' lv"
    using lo same by (subst lanes_ok_cong[where h=h]) auto
  from ne obtain l0 rest where lv: "lv = l0 # rest" by (cases lv) auto
  from lo lv have l0: "lane_ok h l0" by simp
  then have hk: "fst l0 \<noteq> []" "key (h (hd (fst l0))) = None" by (auto simp: lane_ok_def)
  have hm: "hd (fst l0) \<in> nodes l0" using hk(1) by (simp add: nodes_def)
  have v: "h' f = \<lparr>down = Some (snd l0), right = None, key = None, data = None, span_sl = 0\<rparr>"
    "h' (Suc f) = \<lparr>down = Some (hd (fst l0)), right = Some f, key = None, data = None,
         span_sl = itemsCount s + 1\<rparr>"
    using hd lv by (simp_all add: h'_def f_def)
  have lane: "lane_ok h' new" by (simp add: lane_ok_def new_def v)
  have links: "links h' new l0"
    unfolding links_def new_def using v hk same[of l0 "hd (fst l0)"] hm lv by simp
  have lanes: "lanes_ok h' (new # lv)" using lane links lo' lv by simp
  have nn: "nodes new = {f, Suc f}" by (auto simp: nodes_def new_def)
  have bounds: "\<forall>l \<in> set (new # lv). snd l \<notin> set (fst l) \<and> (\<forall>x \<in> nodes l. x < Suc (Suc f))"
    using tn bd nn by (auto simp: new_def less_Suc_eq)
  have disj: "\<forall>i j. i < j \<longrightarrow> j < length (new # lv) \<longrightarrow>
      nodes ((new # lv) ! i) \<inter> nodes ((new # lv) ! j) = {}"
  proof (intro allI impI)
    fix i j assume ij: "i < j" "j < length (new # lv)"
    then obtain j' where j': "j = Suc j'" "j' < length lv" by (cases j) auto
    show "nodes ((new # lv) ! i) \<inter> nodes ((new # lv) ! j) = {}"
    proof (cases i)
      case 0
      have "lv ! j' \<in> set lv" using j' by simp
      from bd[OF this] nn show ?thesis unfolding 0 j' by fastforce
    next
      case (Suc i')
      with ij j' dj[of i' j'] show ?thesis by simp
    qed
  qed
  have last: "last (new # lv) = last lv" using ne by simp
  have lm: "last lv \<in> set lv" using ne by simp
  have "content h' (new # lv) = content h' lv" by (simp add: content_def ne)
  also have "\<dots> = content h lv" using same[OF lm] by (intro content_cong) simp
  finally have cont: "content h' (new # lv) = content h lv" .
  then show "content (store (addLevel s)) (([Suc (fresh s)], fresh s) # lv) = content (store s) lv"
    by (simp add: h'_def h_def new_def f_def)
  have dt': "\<forall>x \<in> set (tl (fst (last (new # lv)))). data (h' x) \<noteq> None"
    unfolding last
  proof
    fix x assume x: "x \<in> set (tl (fst (last lv)))"
    then have "x \<in> nodes (last lv)" unfolding nodes_def
      by (auto dest: set_tl_subset)
    from same[OF lm this] dt x show "data (h' x) \<noteq> None" by simp
  qed
  have wf': "wf ((addLevel s)\<lparr>levelsCount := int (Suc (length lv))\<rparr>) (new # lv)"
    unfolding wf_def using lanes bounds disj dt'
    by (simp add: h'_def[symmetric] f_def[symmetric] new_def)
  have spans: "\<forall>l \<in> set (new # lv). spans_ok ex h' (map fst (content h' (new # lv))) (fst l)"
    if sp: sp
  proof -
    from inv sp have o: "\<forall>l \<in> set lv. spans_ok ex h (map fst (content h lv)) (fst l)"
      and c: "ex \<longrightarrow> itemsCount s = int (length (content h lv))"
      by (simp_all add: inv_def h_def)
    have "spans_ok ex h' (map fst (content h lv)) (fst l)" if "l \<in> set lv" for l
      using o that same[OF that] by (subst spans_ok_cong[where h=h]) (auto simp: nodes_def)
    moreover have "spans_ok ex h' (map fst (content h lv)) (fst new)"
      using c by (simp add: new_def v)
    ultimately show ?thesis unfolding cont by simp
  qed
  have cnt: "sp \<and> ex \<longrightarrow> itemsCount s = int (length (content h' (new # lv)))"
    using inv unfolding cont by (simp add: inv_def h_def)
  show "inv sp ex ((addLevel s)\<lparr>levelsCount := int (Suc (length lv))\<rparr>)
           (([Suc (fresh s)], fresh s) # lv)"
    unfolding inv_def using wf' spans cnt
    by (simp add: h'_def[symmetric] f_def[symmetric] new_def[symmetric])
qed

lemma addLevels_loop_inv:
  assumes "inv sp ex (s\<lparr>levelsCount := int (length lv)\<rparr>) lv"
  shows "\<exists>lv'. inv sp ex ((addLevels_loop n s)\<lparr>levelsCount := int (length lv')\<rparr>) lv'
     \<and> length lv' = length lv + n
     \<and> content (store (addLevels_loop n s)) lv' = content (store s) lv
     \<and> last lv' = last lv
     \<and> (\<forall>x < fresh s. store (addLevels_loop n s) x = store s x)
     \<and> itemsCount (addLevels_loop n s) = itemsCount s
     \<and> fresh s \<le> fresh (addLevels_loop n s)
     \<and> (\<exists>nl. lv' = nl @ lv \<and> (\<forall>l \<in> set nl. \<exists>a. fst l = [a]))"
  using assms
proof (induction n arbitrary: s lv)
  case 0
  then show ?case by (intro exI[of _ lv]) simp
next
  case (Suc n)
  define lv1 where "lv1 = ([Suc (fresh s)], fresh s) # lv"
  from Suc.prems have ne: "lv \<noteq> []" by (auto simp: inv_def wf_def lanes_ok_iff)
  from addLevel_inv[OF Suc.prems] have i1: "inv sp ex ((addLevel s)\<lparr>levelsCount := int (length lv1)\<rparr>) lv1"
    and c1: "content (store (addLevel s)) lv1 = content (store s) lv"
    by (simp_all add: lv1_def)
  from Suc.IH[OF i1] obtain lv' where
    r: "inv sp ex ((addLevels_loop n (addLevel s))\<lparr>levelsCount := int (length lv')\<rparr>) lv'"
      "length lv' = length lv1 + n"
      "content (store (addLevels_loop n (addLevel s))) lv' = content (store (addLevel s)) lv1"
      "last lv' = last lv1"
      "\<forall>x < fresh (addLevel s). store (addLevels_loop n (addLevel s)) x = store (addLevel s) x"
      "itemsCount (addLevels_loop n (addLevel s)) = itemsCount (addLevel s)"
      "fresh (addLevel s) \<le> fresh (addLevels_loop n (addLevel s))"
    and nl: "\<exists>nl. lv' = nl @ lv1 \<and> (\<forall>l \<in> set nl. \<exists>a. fst l = [a])"
    by blast
  from nl obtain nl where "lv' = nl @ lv1" "\<forall>l \<in> set nl. \<exists>a. fst l = [a]" by blast
  then have "lv' = (nl @ [([Suc (fresh s)], fresh s)]) @ lv
      \<and> (\<forall>l \<in> set (nl @ [([Suc (fresh s)], fresh s)]). \<exists>a. fst l = [a])"
    by (simp add: lv1_def)
  then have nl': "\<exists>nl. lv' = nl @ lv \<and> (\<forall>l \<in> set nl. \<exists>a. fst l = [a])" by blast
  have "last lv1 = last lv" using ne by (simp add: lv1_def)
  with r c1 have "inv sp ex ((addLevels_loop n (addLevel s))\<lparr>levelsCount := int (length lv')\<rparr>) lv'
     \<and> length lv' = length lv + Suc n
     \<and> content (store (addLevels_loop n (addLevel s))) lv' = content (store s) lv
     \<and> last lv' = last lv
     \<and> (\<forall>x < fresh s. store (addLevels_loop n (addLevel s)) x = store s x)
     \<and> itemsCount (addLevels_loop n (addLevel s)) = itemsCount s
     \<and> fresh s \<le> fresh (addLevels_loop n (addLevel s))"
    by (auto simp: lv1_def)
  with nl' show ?case
    unfolding addLevels_loop_Suc
    by (intro exI[of _ lv']) blast
qed

lemma addLevels_inv:
  assumes "inv sp ex s lv"
  shows "\<exists>lv'. inv sp ex (addLevelsAccordingToNewLevelsCount H s) lv'
     \<and> H \<le> int (length lv')
     \<and> content (store (addLevelsAccordingToNewLevelsCount H s)) lv' = content (store s) lv
     \<and> last lv' = last lv
     \<and> (\<forall>x < fresh s. store (addLevelsAccordingToNewLevelsCount H s) x = store s x)
     \<and> itemsCount (addLevelsAccordingToNewLevelsCount H s) = itemsCount s
     \<and> fresh s \<le> fresh (addLevelsAccordingToNewLevelsCount H s)
     \<and> (\<exists>nl. lv' = nl @ lv \<and> (\<forall>l \<in> set nl. \<exists>a. fst l = [a]))"
proof (cases "H - levelsCount s \<le> 0")
  case True
  from assms have "levelsCount s = int (length lv)" by (simp add: inv_def wf_def)
  with True assms show ?thesis
    by (intro exI[of _ lv]) (simp add: addLevelsAccordingToNewLevelsCount_def)
next
  case False
  from assms have lc: "levelsCount s = int (length lv)" by (simp add: inv_def wf_def)
  then have "s\<lparr>levelsCount := int (length lv)\<rparr> = s" by simp
  with assms have "inv sp ex (s\<lparr>levelsCount := int (length lv)\<rparr>) lv" by simp
  from addLevels_loop_inv[OF this, of "nat (H - levelsCount s)"] obtain lv' where
    r: "inv sp ex ((addLevels_loop (nat (H - levelsCount s)) s)\<lparr>levelsCount := int (length lv')\<rparr>) lv'"
      "length lv' = length lv + nat (H - levelsCount s)"
      "content (store (addLevels_loop (nat (H - levelsCount s)) s)) lv' = content (store s) lv"
      "last lv' = last lv"
      "\<forall>x < fresh s. store (addLevels_loop (nat (H - levelsCount s)) s) x = store s x"
      "itemsCount (addLevels_loop (nat (H - levelsCount s)) s) = itemsCount s"
      "fresh s \<le> fresh (addLevels_loop (nat (H - levelsCount s)) s)"
      "\<exists>nl. lv' = nl @ lv \<and> (\<forall>l \<in> set nl. \<exists>a. fst l = [a])"
    by blast
  from r(2) lc False have e: "levelsCount s + (H - levelsCount s) = int (length lv')" by simp
  have d: "addLevelsAccordingToNewLevelsCount H s
      = (addLevels_loop (nat (H - levelsCount s)) s)\<lparr>levelsCount := int (length lv')\<rparr>"
    using False e by (simp add: addLevelsAccordingToNewLevelsCount_def Let_def)
  from r e show ?thesis unfolding d by (intro exI[of _ lv']) simp
qed

lemma insert_rest_replace:
  assumes inv: "inv sp ex s lv" and pr: "Some k \<in> lane_keys (store s) (last lv)"
  shows "\<exists>r. insert_rest H k d s = Some (Inr (s\<lparr>store := (store s)(r := (store s r)\<lparr>data := Some d\<rparr>)\<rparr>))
     \<and> key (store s r) = Some k \<and> r \<in> set (tl (fst (last lv)))
     \<and> inv sp ex (s\<lparr>store := (store s)(r := (store s r)\<lparr>data := Some d\<rparr>)\<rparr>) lv
     \<and> content ((store s)(r := (store s r)\<lparr>data := Some d\<rparr>)) lv
         = model_insert k d (content (store s) lv)"
proof -
  define h where "h = store s"
  from inv have wf: "wf s lv" by (simp add: inv_def)
  from wf have ne: "lv \<noteq> []" by (auto simp: wf_def lanes_ok_iff)
  from findInsertPath_wf[OF wf, of k ex "[]"] obtain tr pes where
    fp: "findInsertPath s k = Some (Inr (map Some pes))"
    and tr: "trace_ok h k lv tr pes"
    unfolding h_def by blast
  from tr have len: "length pes = length lv" by (simp add: trace_ok_def)
  with ne have pne: "pes \<noteq> []" by auto
  define i0 where "i0 = length lv - 1"
  from ne have i0: "i0 < length lv" unfolding i0_def by (cases lv) auto
  have lst: "last pes = pes ! i0" "last lv = lv ! i0"
    unfolding i0_def using last_conv_nth[OF pne] last_conv_nth[OF ne] len by simp_all
  define a where "a = node (last pes)"
  define t where "t = snd (last lv)"
  have ap: "approach h k (last lv) a"
    using trace_ok_nth(1)[OF tr i0] by (simp add: lst a_def)
  have lane: "lane_ok h (last lv)" using wf_lane(1)[OF wf i0] by (simp add: lst h_def)
  from approach_split[OF lane ap] obtain pre post where
    sp: "fst (last lv) = pre @ a # post" "a \<notin> set pre" "a \<notin> set post"
    "\<forall>x \<in> set pre. key (h x) < key (h a)" "key (h a) < Some k"
    "\<forall>x \<in> set post. Some k \<le> key (h x)"
    "right (h a) = Some (case post of [] \<Rightarrow> snd (last lv) | b # _ \<Rightarrow> b)"
    by metis
  define r where "r = (case post of [] \<Rightarrow> snd (last lv) | b # _ \<Rightarrow> b)"
  have ra: "right (h a) = Some r" using sp(7) by (simp add: r_def)
  from approach_right_key[OF lane ap ra] pr have kr: "key (h r) = Some k" by (simp add: h_def)
  from lane have "key (h (snd (last lv))) = None" by (simp add: lane_ok_def)
  with kr obtain post' where post: "post = r # post'" by (cases post) (auto simp: r_def)
  define h' where "h' = h(r := (h r)\<lparr>data := Some d\<rparr>)"
  define s' where "s' = s\<lparr>store := h'\<rparr>"
  have res: "insert_rest H k d s = Some (Inr s')"
    using fp pne ra kr
    by (simp add: insert_rest_def lastElement_def last_map a_def[symmetric] h_def[symmetric]
        s'_def h'_def)
  have same: "key (h' x) = key (h x)" "right (h' x) = right (h x)" "down (h' x) = down (h x)"
    "span_sl (h' x) = span_sl (h x)" for x
    by (simp_all add: h'_def)
  have lanes: "lanes_ok h' lv = lanes_ok h lv" by (intro lanes_ok_cong) (simp add: same)
  have ok: "lane_ok h (pre @ a # post, t)" using lane sp(1) unfolding t_def by (metis prod.collapse)
  from lane_ok_distinct[OF ok] have dist: "distinct (pre @ a # post)" by simp
  have tl: "tl (pre @ a # post) = tl (pre @ [a]) @ r # post'" unfolding post by (cases pre) simp_all
  have sub: "set (tl (pre @ [a])) \<subseteq> set (pre @ [a])" by (cases pre) auto
  have rm: "r \<in> set (tl (fst (last lv)))" unfolding sp(1) tl by simp
  have nr: "\<forall>x \<in> set (tl (pre @ [a])) \<union> set post'. x \<noteq> r"
    using dist sub unfolding post by auto
  have dt: "\<forall>x \<in> set (tl (fst (last lv))). data (h' x) \<noteq> None"
    using wf by (auto simp: wf_def h'_def h_def)
  have wf': "wf s' lv"
    using wf lanes dt unfolding wf_def s'_def by (simp add: h_def[symmetric])
  define L where "L = map (entry h) (tl (pre @ [a]))"
  define R where "R = map (entry h) post'"
  have e1: "map (entry h') (tl (pre @ [a])) = L" "map (entry h') post' = R"
    unfolding L_def R_def using nr by (auto simp: entry_def h'_def)
  have e2: "entry h' r = (k, d)" using kr by (simp add: entry_def h'_def)
  have e3: "entry h r = (k, snd (entry h r))" using kr by (simp add: entry_def)
  have c: "content h lv = L @ (k, snd (entry h r)) # R"
    unfolding content_eq sp(1) tl L_def R_def using e3 by simp
  have c': "content h' lv = L @ (k, d) # R"
    unfolding content_eq sp(1) tl using e1 e2 by simp
  have lo: "\<forall>x \<in> set (pre @ [a]). key (h x) < Some k" using sp(4,5) by (auto intro: less_trans)
  have m: "map fst L = map (\<lambda>x. fst (entry h x)) (tl (pre @ [a]))" by (simp add: L_def)
  from lane_keys_split(1)[OF ok lo sp(6)] have "\<forall>y \<in> set (map fst L). y < k" unfolding m .
  then have "\<forall>e \<in> set L. fst e < k" by auto
  then have cont: "content h' lv = model_insert k d (content h lv)"
    unfolding c c' by (simp add: model_insert_replace)
  have K: "map fst (content h' lv) = map fst (content h lv)" unfolding c c' by simp
  have spans: "spans_ok ex h' K0 ns = spans_ok ex h K0 ns" for K0 ns
    by (intro spans_ok_cong) (simp add: same)
  have "inv sp ex s' lv"
    using inv wf' unfolding inv_def s'_def
    by (simp add: K spans h_def[symmetric] c c')
  with res kr rm cont show ?thesis
    unfolding s'_def h'_def h_def by blast
qed

lemma insertWithLevel_inv:
  assumes inv: "inv sp ex s lv" and H: "1 \<le> H"
  shows "\<exists>s' lv'. insertWithLevel H k d s = Some (Inr s') \<and> inv sp ex s' lv'
     \<and> content (store s') lv' = model_insert k d (content (store s) lv)"
proof -
  define s1 where "s1 = addLevelsAccordingToNewLevelsCount H s"
  from addLevels_inv[OF inv, of H] obtain lv1 where
    g: "inv sp ex s1 lv1" "H \<le> int (length lv1)" "content (store s1) lv1 = content (store s) lv"
    unfolding s1_def by blast
  show ?thesis
  proof (cases "Some k \<in> lane_keys (store s1) (last lv1)")
    case True
    from insert_rest_replace[OF g(1) True, of H d] g(3) show ?thesis
      unfolding insertWithLevel_def s1_def[symmetric] by (metis skipList.select_convs(1) skipList.surjective skipList.update_convs(1))
  next
    case False
    from insert_rest_new[OF g(1) H g(2) False, of d] g(3) show ?thesis
      unfolding insertWithLevel_def s1_def[symmetric] by auto
  qed
qed

lemma delete_step_eq:
  assumes "right (store s (node pe)) = Some b" "b \<noteq> node pe"
  shows "delete_step k pe s = Inr (s\<lparr>store := (store s)(node pe := del_node k (store s) (node pe))\<rparr>)"
  using assms by (simp add: delete_step_def del_node_def Let_def)

lemma del_fold:
  assumes "\<forall>pe \<in> set pes. \<exists>b. right (store sc (node pe)) = Some b \<and> b \<notin> node ` set pes"
    "distinct (map node pes)"
  shows "\<exists>s'. delete_forEach k (map Some pes) sc = Inr s' \<and> del_frame k sc pes s'"
  using assms
proof (induction pes arbitrary: sc)
  case Nil
  then show ?case by (simp add: del_frame_def)
next
  case (Cons pe pes)
  define a where "a = node pe"
  from Cons.prems(1) obtain b where b: "right (store sc a) = Some b" "b \<noteq> a" "b \<notin> node ` set pes"
    unfolding a_def by auto
  define s1 where "s1 = sc\<lparr>store := (store sc)(a := del_node k (store sc) a)\<rparr>"
  have st: "delete_step k pe sc = Inr s1"
    using b unfolding s1_def a_def by (intro delete_step_eq) auto
  from Cons.prems(2) have an: "a \<notin> node ` set pes" and ds: "distinct (map node pes)"
    by (auto simp: a_def)
  have o: "store s1 x = store sc x" if "x \<noteq> a" for x using that by (simp add: s1_def)
  have pre: "\<forall>pe \<in> set pes. \<exists>b. right (store s1 (node pe)) = Some b \<and> b \<notin> node ` set pes"
  proof
    fix pe' assume m: "pe' \<in> set pes"
    with an have "node pe' \<noteq> a" by auto
    with Cons.prems(1) m o show "\<exists>b. right (store s1 (node pe')) = Some b \<and> b \<notin> node ` set pes"
      by auto
  qed
  from Cons.IH[OF pre ds] obtain s' where
    r: "delete_forEach k (map Some pes) s1 = Inr s'" "del_frame k s1 pes s'" by blast
  have dn: "del_node k (store s1) x = del_node k (store sc) x" if "x \<in> node ` set pes" for x
  proof -
    from that an have xa: "x \<noteq> a" by auto
    from that Cons.prems(1) obtain b' where b': "right (store sc x) = Some b'" "b' \<noteq> a"
      by (auto simp: a_def)
    with xa o show ?thesis by (simp add: del_node_def)
  qed
  have "store s' x = (if x \<in> node ` set (pe # pes) then del_node k (store sc) x else store sc x)" for x
  proof (cases "x \<in> node ` set pes")
    case True
    with r(2) dn show ?thesis by (simp add: del_frame_def)
  next
    case False
    with r(2) have "store s' x = store s1 x" by (simp add: del_frame_def)
    with False show ?thesis by (simp add: s1_def a_def)
  qed
  moreover from r(2) have "fresh s' = fresh sc \<and> head s' = head sc \<and> topRight s' = topRight sc
      \<and> tail s' = tail sc \<and> levelsCount s' = levelsCount sc \<and> itemsCount s' = itemsCount sc"
    by (simp add: del_frame_def s1_def)
  ultimately have "del_frame k sc (pe # pes) s'" unfolding del_frame_def by blast
  with r(1) st show ?case by auto
qed

lemma del_node_fields [simp]:
  "key (del_node k h a) = key (h a)" "data (del_node k h a) = data (h a)"
  "down (del_node k h a) = down (h a)"
  by (simp_all add: del_node_def split: option.splits)

lemma del_lane:
  assumes ok: "lane_ok h (ns, t)" and ap: "approach h k (ns, t) a"
    and h': "\<forall>x \<in> set ns \<union> {t}. h' x = (if x = a then del_node k h a else h x)"
    and tn: "t \<notin> set ns"
  shows "lane_ok h' (filter (\<lambda>x. key (h x) \<noteq> Some k) ns, t)"
    and "spans_ok ex h K ns \<Longrightarrow> (\<And>ko. cnt K' ko = cnt K ko - (if Some k \<le> ko then 1 else 0))
       \<Longrightarrow> spans_ok False h' K' (filter (\<lambda>x. key (h x) \<noteq> Some k) ns)"
proof -
  from approach_split[OF ok ap] obtain pre post where
    sp: "ns = pre @ a # post" "a \<notin> set pre" "a \<notin> set post"
    "\<forall>x \<in> set pre. key (h x) < key (h a)" "key (h a) < Some k"
    "\<forall>x \<in> set post. Some k \<le> key (h x)"
    "right (h a) = Some (case post of [] \<Rightarrow> t | b # _ \<Rightarrow> b)"
    by (metis fst_conv snd_conv)
  define r where "r = (case post of [] \<Rightarrow> t | b # _ \<Rightarrow> b)"
  have ra: "right (h a) = Some r" using sp(7) by (simp add: r_def)
  have lo: "\<forall>x \<in> set (pre @ [a]). key (h x) < Some k" using sp(4,5) by (auto intro: less_trans)
  have keep: "filter (\<lambda>x. key (h x) \<noteq> Some k) pre = pre" "key (h a) \<noteq> Some k"
    using lo by (auto simp: filter_id_conv)
  from tn sp(1) have at: "a \<noteq> t" by auto
  have keys: "key (h' x) = key (h x)" if "x \<in> set ns \<union> {t}" for x
    using h' that by auto
  have old: "h' x = h x" if "x \<in> set (pre @ post) \<union> {t}" for x
    using h' that sp(1,2,3) at by auto
  from ok sp(1) have srt: "sorted_wrt (<) (map (\<lambda>a. key (h a)) (pre @ a # post))"
    and kt: "key (h t) = None"
    by (simp_all add: lane_ok_def)
  have goal: "lane_ok h' (filter (\<lambda>x. key (h x) \<noteq> Some k) ns, t)
     \<and> (spans_ok ex h K ns \<longrightarrow> (\<forall>ko. cnt K' ko = cnt K ko - (if Some k \<le> ko then 1 else 0))
       \<longrightarrow> spans_ok False h' K' (filter (\<lambda>x. key (h x) \<noteq> Some k) ns))"
  proof (cases "key (h r) = Some k")
    case True
    with kt obtain post' where post: "post = r # post'" by (cases post) (auto simp: r_def)
    from srt have hi: "\<forall>x \<in> set post'. Some k < key (h x)"
      unfolding post using True by (auto simp: sorted_wrt_append)
    then have keep2: "filter (\<lambda>x. key (h x) \<noteq> Some k) post' = post'"
      by (auto simp: filter_id_conv)
    have f: "filter (\<lambda>x. key (h x) \<noteq> Some k) ns = pre @ a # post'"
      using keep keep2 True unfolding sp(1) post by simp
    have va: "h' a = (h a)\<lparr>span_sl := span_sl (h a) + span_sl (h r) - 1, right := right (h r)\<rparr>"
      using h' sp(1) ra True by (simp add: del_node_def)
    have ok1: "lane_ok h (pre @ a # r # post', t)" using ok sp(1) post by simp
    have "lane_ok h' (pre @ a # post', t)"
      using ok1
    proof (rule lane_ok_del)
      show "right (h' a) = right (h r)" by (simp add: va)
      show "\<forall>x \<in> set (pre @ a # post') \<union> {t}. key (h' x) = key (h x)"
        using keys sp(1) post by auto
      show "\<forall>x \<in> set (pre @ post') \<union> {t}. right (h' x) = right (h x)"
        using old post by auto
    qed
    moreover have "spans_ok False h' K' (pre @ a # post')"
      if s: "spans_ok ex h K ns" and K': "\<And>ko. cnt K' ko = cnt K ko - (if Some k \<le> ko then 1 else 0)"
    proof -
      from s have "spans_ok False h K (pre @ a # r # post')"
        unfolding sp(1) post by (rule spans_ok_weaken)
      then show ?thesis using lo True hi K'
      proof (rule spans_del)
        show "\<forall>x \<in> set (pre @ a # post'). key (h' x) = key (h x)"
          using keys sp(1) post by auto
        show "\<forall>x \<in> set (pre @ post'). span_sl (h' x) = span_sl (h x)"
          using old post by auto
        show "span_sl (h' a) = span_sl (h a) + span_sl (h r) - 1" by (simp add: va)
      qed
    qed
    ultimately show ?thesis unfolding f by blast
  next
    case False
    have hi: "\<forall>x \<in> set post. Some k < key (h x)"
    proof (cases post)
      case Nil
      then show ?thesis by simp
    next
      case (Cons b post')
      with False have "key (h b) \<noteq> Some k" by (simp add: r_def)
      with sp(6) Cons have "Some k < key (h b)" by (auto simp: less_le)
      moreover from srt Cons have "\<forall>x \<in> set post'. key (h b) < key (h x)"
        by (auto simp: sorted_wrt_append)
      ultimately show ?thesis using Cons by (auto intro: less_trans)
    qed
    then have keep2: "filter (\<lambda>x. key (h x) \<noteq> Some k) post = post"
      by (auto simp: filter_id_conv)
    have f: "filter (\<lambda>x. key (h x) \<noteq> Some k) ns = ns"
      using keep keep2 unfolding sp(1) by simp
    have va: "h' a = (h a)\<lparr>span_sl := span_sl (h a) - 1\<rparr>"
      using h' sp(1) ra False by (simp add: del_node_def)
    have "lane_ok h' (ns, t) = lane_ok h (ns, t)"
    proof (rule lane_ok_cong)
      show "\<forall>x \<in> set (fst (ns, t)) \<union> {snd (ns, t)}. key (h' x) = key (h x) \<and> right (h' x) = right (h x)"
        using old va sp(1) by auto
    qed
    moreover have "spans_ok False h' K' (pre @ a # post)"
      if s: "spans_ok ex h K ns" and K': "\<And>ko. cnt K' ko = cnt K ko - (if Some k \<le> ko then 1 else 0)"
    proof -
      from s have "spans_ok False h K (pre @ a # post)"
        unfolding sp(1) by (rule spans_ok_weaken)
      then show ?thesis using lo hi
      proof (rule spans_bump[where c="- 1"])
        show "\<And>ko. cnt K' ko = cnt K ko + (if Some k \<le> ko then - 1 else 0)" using K' by simp
        show "False \<longrightarrow> int (length K') = int (length K) + - 1" by simp
        show "\<forall>x \<in> set (pre @ a # post). key (h' x) = key (h x)"
          using keys sp(1) by auto
        show "\<forall>x \<in> set (pre @ post). span_sl (h' x) = span_sl (h x)"
          using old by auto
        show "span_sl (h' a) = span_sl (h a) + - 1" by (simp add: va)
      qed
    qed
    ultimately show ?thesis unfolding f using ok sp(1) by blast
  qed
  from goal show "lane_ok h' (filter (\<lambda>x. key (h x) \<noteq> Some k) ns, t)" by blast
  from goal show "spans_ok ex h K ns \<Longrightarrow> (\<And>ko. cnt K' ko = cnt K ko - (if Some k \<le> ko then 1 else 0))
       \<Longrightarrow> spans_ok False h' K' (filter (\<lambda>x. key (h x) \<noteq> Some k) ns)" by blast
qed

lemma approach_right_in:
  assumes "lane_ok h l" "approach h k l a" "snd l \<notin> set (fst l)"
  obtains b where "right (h a) = Some b" "b \<in> nodes l" "b \<noteq> a"
proof -
  from approach_split[OF assms(1,2)] obtain pre post where
    sp: "fst l = pre @ a # post" "a \<notin> set pre" "a \<notin> set post"
    "right (h a) = Some (case post of [] \<Rightarrow> snd l | b # _ \<Rightarrow> b)"
    by metis
  define b where "b = (case post of [] \<Rightarrow> snd l | b # _ \<Rightarrow> b)"
  have "b \<in> nodes l" "b \<noteq> a"
    using sp(1,3) assms(3) by (auto simp: b_def nodes_def split: list.splits)
  with sp(4) show ?thesis by (intro that[of b]) (simp_all add: b_def)
qed

lemma content_keys:
  assumes "wf s lv"
  shows "map (\<lambda>x. key (store s x)) (tl (fst (last lv))) = map Some (map fst (content (store s) lv))"
    "sorted_wrt (<) (map fst (content (store s) lv))"
    "lane_keys (store s) (last lv) = insert None (Some ` set (map fst (content (store s) lv)))"
proof -
  define h where "h = store s"
  define ns where "ns = fst (last lv)"
  from assms have ne: "lv \<noteq> []" by (auto simp: wf_def lanes_ok_iff)
  then have "last lv = lv ! (length lv - 1)" by (rule last_conv_nth)
  moreover from ne have "length lv - 1 < length lv" by (cases lv) auto
  ultimately have lane: "lane_ok h (last lv)" using wf_lane(1)[OF assms] by (simp add: h_def)
  have ks: "key (h x) = Some (fst (entry h x))" if "x \<in> set (tl ns)" for x
    using lane_key_Some[OF lane] that by (simp add: ns_def)
  then show a: "map (\<lambda>x. key (store s x)) (tl (fst (last lv))) = map Some (map fst (content (store s) lv))"
    unfolding content_eq h_def[symmetric] ns_def[symmetric] by simp
  from lane have nn: "ns \<noteq> []" and hk: "key (h (hd ns)) = None"
    and srt: "sorted_wrt (<) (map (\<lambda>a. key (h a)) ns)"
    by (simp_all add: lane_ok_def ns_def)
  from nn have e: "ns = hd ns # tl ns" by simp
  from srt have "sorted_wrt (<) (map (\<lambda>a. key (h a)) (hd ns # tl ns))" using e by simp
  then have "sorted_wrt (<) (map (\<lambda>a. key (h a)) (tl ns))" by simp
  then have "sorted_wrt (<) (map Some (map fst (content h lv)))"
    using a by (simp add: h_def ns_def)
  then show "sorted_wrt (<) (map fst (content (store s) lv))"
    by (simp add: sorted_wrt_map h_def)
  have "lane_keys h (last lv) = (\<lambda>x. key (h x)) ` set (hd ns # tl ns)"
    unfolding lane_keys_def ns_def[symmetric] using e by simp
  also have "\<dots> = insert None (set (map (\<lambda>x. key (h x)) (tl ns)))" using hk by simp
  also have "\<dots> = insert None (Some ` set (map fst (content h lv)))"
    using a by (simp add: h_def ns_def image_comp)
  finally show "lane_keys (store s) (last lv) = insert None (Some ` set (map fst (content (store s) lv)))"
    by (simp add: h_def)
qed

lemma sorted_less_distinct: "sorted_wrt (<) (K :: int list) \<Longrightarrow> distinct K"
  by (induction K) auto

lemma cnt_Cons: "cnt (y # K) ko = (if Some y \<le> ko then 1 else 0) + cnt K ko"
  by (simp add: cnt_def)

lemma cnt_remove:
  "distinct K \<Longrightarrow> k \<in> set K \<Longrightarrow>
     cnt (filter (\<lambda>y. y \<noteq> k) K) ko = cnt K ko - (if Some k \<le> ko then 1 else 0)"
proof (induction K)
  case Nil
  then show ?case by simp
next
  case (Cons y K)
  show ?case
  proof (cases "y = k")
    case True
    with Cons.prems have "filter (\<lambda>y. y \<noteq> k) (y # K) = K" by (auto simp: filter_id_conv)
    then show ?thesis using True by (simp add: cnt_Cons)
  next
    case False
    with Cons have ih: "cnt (filter (\<lambda>y. y \<noteq> k) K) ko = cnt K ko - (if Some k \<le> ko then 1 else 0)"
      by simp
    from False have "filter (\<lambda>y. y \<noteq> k) (y # K) = y # filter (\<lambda>y. y \<noteq> k) K" by simp
    then show ?thesis using ih by (simp add: cnt_Cons)
  qed
qed

lemma delete_run:
  assumes wf: "wf s lv"
  obtains pes tr s' where "findInsertPath s k = Some (Inr (map Some pes))"
    "trace_ok (store s) k lv tr pes" "delete k s = Some (Inr s')" "del_frame k s pes s'"
    "distinct (map node pes)"
proof -
  from findInsertPath_wf[OF wf, of k False "[]"] obtain tr pes where
    fp: "findInsertPath s k = Some (Inr (map Some pes))"
    and tr: "trace_ok (store s) k lv tr pes"
    by blast
  from tr have len: "length pes = length lv" by (simp add: trace_ok_def)
  have ap: "\<And>i. i < length lv \<Longrightarrow> approach (store s) k (lv ! i) (node (pes ! i))"
    using trace_ok_nth[OF tr] by blast
  from wf_approach_nodes[OF wf len ap] have ds: "distinct (map node pes)" by blast
  have pre: "\<forall>pe \<in> set pes. \<exists>b. right (store s (node pe)) = Some b \<and> b \<notin> node ` set pes"
  proof
    fix pe assume "pe \<in> set pes"
    then obtain i where i: "i < length lv" "pe = pes ! i" using len by (auto simp: in_set_conv_nth)
    from approach_right_in[OF wf_lane(1)[OF wf i(1)] ap[OF i(1)] wf_lane(2)[OF wf i(1)]]
    obtain b where b: "right (store s (node (pes ! i))) = Some b" "b \<in> nodes (lv ! i)"
      "b \<noteq> node (pes ! i)" by metis
    have "b \<notin> node ` set pes"
    proof
      assume "b \<in> node ` set pes"
      then obtain j where j: "j < length lv" "b = node (pes ! j)"
        using len by (auto simp: in_set_conv_nth)
      with b(3) have ji: "j \<noteq> i" by auto
      from ap[OF j(1)] j(2) have "b \<in> nodes (lv ! j)" by (simp add: approach_def nodes_def)
      with b(2) wf_lane(4)[OF wf i(1) j(1) ji] show False by blast
    qed
    with b(1) i(2) show "\<exists>b. right (store s (node pe)) = Some b \<and> b \<notin> node ` set pes" by auto
  qed
  from del_fold[OF pre ds, of k] obtain s' where
    r: "delete_forEach k (map Some pes) s = Inr s'" "del_frame k s pes s'" by blast
  from fp r(1) have "delete k s = Some (Inr s')" by (simp add: delete_def)
  with fp tr r(2) ds show ?thesis by (intro that[of pes tr s'])
qed

lemma del_lanes_nth:
  "i < length lv \<Longrightarrow> del_lanes k h lv ! i = (filter (\<lambda>x. key (h x) \<noteq> Some k) (fst (lv ! i)), snd (lv ! i))"
  by (simp add: del_lanes_def)

lemma del_lanes_length [simp]: "length (del_lanes k h lv) = length lv"
  by (simp add: del_lanes_def)

lemma delete_inv:
  assumes inv: "inv sp ex s lv" and pr: "sp \<longrightarrow> Some k \<in> lane_keys (store s) (last lv)"
  shows "\<exists>s'. delete k s = Some (Inr s') \<and> inv sp False s' (del_lanes k (store s) lv)
     \<and> content (store s') (del_lanes k (store s) lv) = model_delete k (content (store s) lv)"
proof -
  define h where "h = store s"
  define lv' where "lv' = del_lanes k h lv"
  define P where "P = (\<lambda>x. key (h x) \<noteq> Some k)"
  from inv have wf: "wf s lv" by (simp add: inv_def)
  from wf have ne: "lv \<noteq> []" by (auto simp: wf_def lanes_ok_iff)
  from delete_run[OF wf, of k] obtain pes tr s' where
    fp: "trace_ok h k lv tr pes" and res: "delete k s = Some (Inr s')"
    and fr: "del_frame k s pes s'"
    unfolding h_def by metis
  define h' where "h' = store s'"
  from fp have len: "length pes = length lv" by (simp add: trace_ok_def)
  have ap: "\<And>i. i < length lv \<Longrightarrow> approach h k (lv ! i) (node (pes ! i))"
    using trace_ok_nth[OF fp] by blast
  have len': "length lv' = length lv" by (simp add: lv'_def)
  have nth: "lv' ! i = (filter P (fst (lv ! i)), snd (lv ! i))" if "i < length lv" for i
    using that by (simp add: lv'_def del_lanes_nth P_def)
  have st: "h' x = (if x \<in> node ` set pes then del_node k h x else h x)" for x
    using fr by (simp add: del_frame_def h_def h'_def)
  have same: "key (h' x) = key (h x)" "data (h' x) = data (h x)" "down (h' x) = down (h x)" for x
    by (simp_all add: st)
  have lane_st: "h' x = (if x = node (pes ! i) then del_node k h (node (pes ! i)) else h x)"
    if i: "i < length lv" and x: "x \<in> nodes (lv ! i)" for i x
  proof (cases "x = node (pes ! i)")
    case True
    from i len have "pes ! i \<in> set pes" by simp
    then have "node (pes ! i) \<in> node ` set pes" by (rule imageI)
    with True show ?thesis by (simp add: st)
  next
    case False
    have "x \<notin> node ` set pes"
    proof
      assume "x \<in> node ` set pes"
      then obtain j where j: "j < length lv" "x = node (pes ! j)"
        using len by (auto simp: in_set_conv_nth)
      with False have ji: "j \<noteq> i" by auto
      from ap[OF j(1)] j(2) have "x \<in> nodes (lv ! j)" by (simp add: approach_def nodes_def)
      with x wf_lane(4)[OF wf i j(1) ji] show False by blast
    qed
    with False show ?thesis by (simp add: st)
  qed
  have lane_facts: "lane_ok h' (lv' ! i)"
      "spans_ok ex h K (fst (lv ! i)) \<Longrightarrow> (\<And>ko. cnt K' ko = cnt K ko - (if Some k \<le> ko then 1 else 0))
         \<Longrightarrow> spans_ok False h' K' (fst (lv' ! i))"
    if i: "i < length lv" for i K K'
  proof -
    have ok: "lane_ok h (fst (lv ! i), snd (lv ! i))" using wf_lane(1)[OF wf i] by (simp add: h_def)
    have ap': "approach h k (fst (lv ! i), snd (lv ! i)) (node (pes ! i))" using ap[OF i] by simp
    have hh: "\<forall>x \<in> set (fst (lv ! i)) \<union> {snd (lv ! i)}.
        h' x = (if x = node (pes ! i) then del_node k h (node (pes ! i)) else h x)"
      using lane_st[OF i] by (simp add: nodes_def)
    from del_lane(1)[OF ok ap' hh wf_lane(2)[OF wf i]] show "lane_ok h' (lv' ! i)"
      by (simp add: nth[OF i] P_def)
    from del_lane(2)[OF ok ap' hh wf_lane(2)[OF wf i], of ex K K']
    show "spans_ok ex h K (fst (lv ! i)) \<Longrightarrow> (\<And>ko. cnt K' ko = cnt K ko - (if Some k \<le> ko then 1 else 0))
         \<Longrightarrow> spans_ok False h' K' (fst (lv' ! i))"
      by (simp add: nth[OF i] P_def)
  qed
  have sub: "nodes (lv' ! i) \<subseteq> nodes (lv ! i)" if "i < length lv" for i
    using that by (auto simp: nth nodes_def)
  have links: "links h' (lv' ! i) (lv' ! Suc i)" if i: "Suc i < length lv" for i
  proof -
    from i have i0: "i < length lv" by simp
    from wf i have lk: "links h (lv ! i) (lv ! Suc i)" by (simp add: wf_def lanes_ok_iff h_def)
    show ?thesis unfolding links_def nth[OF i] nth[OF i0] same fst_conv snd_conv
    proof (intro conjI ballI)
      fix x assume "x \<in> set (filter P (fst (lv ! i)))"
      then have x: "x \<in> set (fst (lv ! i))" "P x" by simp_all
      with lk obtain d where d: "d \<in> set (fst (lv ! Suc i))" "down (h x) = Some d" "key (h d) = key (h x)"
        unfolding links_def by blast
      with x(2) have "P d" by (simp add: P_def)
      with d show "\<exists>d \<in> set (filter P (fst (lv ! Suc i))). down (h x) = Some d \<and> key (h d) = key (h x)"
        by auto
    next
      from lk show "down (h (snd (lv ! i))) = Some (snd (lv ! Suc i))" by (simp add: links_def)
    qed
  qed
  define i0 where "i0 = length lv - 1"
  from ne have i0: "i0 < length lv" unfolding i0_def by (cases lv) auto
  have ne': "lv' \<noteq> []" using ne len' by auto
  have lst: "last lv' = lv' ! i0" "last lv = lv ! i0"
    unfolding i0_def using last_conv_nth[OF ne'] last_conv_nth[OF ne] len' by simp_all
  from wf have bo: "bottom_ok h (last lv)" by (simp add: wf_def lanes_ok_iff h_def)
  have bottom: "bottom_ok h' (last lv')"
    using bo unfolding bottom_ok_def lst nth[OF i0] same by simp
  have lanes: "lanes_ok h' lv'"
    unfolding lanes_ok_iff using ne' lane_facts(1) links bottom len' by simp
  have bounds: "\<forall>l \<in> set lv'. snd l \<notin> set (fst l) \<and> (\<forall>x \<in> nodes l. x < fresh s)"
  proof
    fix l assume "l \<in> set lv'"
    then obtain i where i: "i < length lv" "l = lv' ! i" using len' by (auto simp: in_set_conv_nth)
    from wf_lane(2)[OF wf i(1)] wf_lane(3)[OF wf i(1)] sub[OF i(1)] i(2)
    show "snd l \<notin> set (fst l) \<and> (\<forall>x \<in> nodes l. x < fresh s)"
      by (auto simp: nth[OF i(1)])
  qed
  have disj: "\<forall>i j. i < j \<longrightarrow> j < length lv' \<longrightarrow> nodes (lv' ! i) \<inter> nodes (lv' ! j) = {}"
  proof (intro allI impI)
    fix i j assume ij: "i < j" "j < length lv'"
    then have i: "i < length lv" and j: "j < length lv" and ne: "j \<noteq> i" using len' by simp_all
    from wf_lane(4)[OF wf i j ne] sub[OF i] sub[OF j]
    show "nodes (lv' ! i) \<inter> nodes (lv' ! j) = {}" by blast
  qed
  have Phd: "P (hd (fst (lv ! i)))" "fst (lv ! i) \<noteq> []" if "i < length lv" for i
    using wf_lane(1)[OF wf that] by (simp_all add: lane_ok_def P_def h_def)
  have fl: "filter P (fst (lv ! i)) = hd (fst (lv ! i)) # filter P (tl (fst (lv ! i)))"
    if i: "i < length lv" for i
  proof -
    from Phd(2)[OF i] have "fst (lv ! i) = hd (fst (lv ! i)) # tl (fst (lv ! i))" by simp
    then have "filter P (fst (lv ! i)) = filter P (hd (fst (lv ! i)) # tl (fst (lv ! i)))" by simp
    with Phd(1)[OF i] show ?thesis by simp
  qed
  have hd0: "0 < length lv" using ne by simp
  have hd: "hd (fst (hd lv')) = hd (fst (hd lv))" "snd (hd lv') = snd (hd lv)"
    using ne ne' by (simp_all add: hd_conv_nth nth[OF hd0] fl[OF hd0])
  have tl0: "tl (fst (last lv')) = filter P (tl (fst (last lv)))"
    unfolding lst nth[OF i0] by (simp add: fl[OF i0])
  have dt: "\<forall>x \<in> set (tl (fst (last lv'))). data (h' x) \<noteq> None"
    unfolding tl0 same using wf by (simp add: wf_def h_def)
  from fr have flds: "fresh s' = fresh s" "head s' = head s" "topRight s' = topRight s"
    "levelsCount s' = levelsCount s" "itemsCount s' = itemsCount s"
    by (simp_all add: del_frame_def)
  have wf': "wf s' lv'"
    unfolding wf_def flds h'_def[symmetric] hd
    using lanes bounds disj dt wf by (simp add: wf_def len')
  have en: "entry h' = entry h" by (intro ext) (simp add: entry_def same)
  have lane0: "lane_ok h (last lv)" using wf_lane(1)[OF wf i0] by (simp add: lst h_def)
  have "map (entry h) (filter P (tl (fst (last lv))))
      = filter (\<lambda>e. fst e \<noteq> k) (map (entry h) (tl (fst (last lv))))"
    unfolding filter_map
  proof (intro arg_cong[where f="map (entry h)"] filter_cong refl)
    fix x assume "x \<in> set (tl (fst (last lv)))"
    from lane_key_Some[OF lane0 this] show "P x = ((\<lambda>e. fst e \<noteq> k) \<circ> entry h) x"
      by (simp add: P_def)
  qed
  then have cont: "content h' lv' = model_delete k (content h lv)"
    unfolding content_eq tl0 en model_delete_def .
  define K where "K = map fst (content h lv)"
  define K' where "K' = map fst (content h' lv')"
  have K'eq: "K' = filter (\<lambda>y. y \<noteq> k) K"
    unfolding K'_def K_def cont model_delete_def by (simp add: filter_map comp_def)
  have spans: "\<forall>l \<in> set lv'. spans_ok False h' K' (fst l)" if sp: sp
  proof
    fix l assume "l \<in> set lv'"
    then obtain i where i: "i < length lv" "l = lv' ! i" using len' by (auto simp: in_set_conv_nth)
    from inv sp i(1) have s1: "spans_ok ex h K (fst (lv ! i))" by (simp add: inv_def K_def h_def)
    from content_keys(2,3)[OF wf] pr sp have "distinct K" "k \<in> set K"
      by (auto simp: K_def h_def dest: sorted_less_distinct)
    then have "\<And>ko. cnt K' ko = cnt K ko - (if Some k \<le> ko then 1 else 0)"
      unfolding K'eq by (rule cnt_remove)
    from lane_facts(2)[OF i(1) s1 this] i(2) show "spans_ok False h' K' (fst l)" by simp
  qed
  have "inv sp False s' lv'"
    unfolding inv_def using wf' spans by (simp add: h'_def[symmetric] K'_def)
  with res cont show ?thesis unfolding lv'_def h_def h'_def by blast
qed

lemma inv_init: "inv True True SkipList_constructor [([1], 0)]"
  by (simp add: inv_def wf_def SkipList_constructor_def lane_ok_def nodes_def content_def)

lemma content_init [simp]: "content h [([a], t)] = []"
  by (simp add: content_def)

lemma inv_no_spans: "\<not> sp \<Longrightarrow> inv sp ex s lv = wf s lv"
  by (simp add: inv_def)

lemma present_iff:
  assumes "wf s lv"
  shows "(Some k \<in> lane_keys (store s) (last lv)) = (k \<in> fst ` set (content (store s) lv))"
  unfolding content_keys(3)[OF assms] by auto

lemma run_inv:
  assumes "inv sp ex s lv"
    and "sp \<longrightarrow> deletes_stored ops (content (store s) lv)"
    and "sp \<and> ex \<longrightarrow> inserts_only ops"
  shows "\<exists>s' lv'. run ops s = Some (Inr s') \<and> inv sp ex s' lv'
     \<and> content (store s') lv' = model_run ops (content (store s) lv)"
  using assms
proof (induction ops arbitrary: s lv)
  case Nil
  then show ?case by auto
next
  case (Cons x xs)
  show ?case
  proof (cases x)
    case (Insert k d rnd)
    from randomLevel_bounds[of rnd] have H: "1 \<le> randomLevel rnd" by simp
    from insertWithLevel_inv[OF Cons.prems(1) H, of k d] obtain s1 lv1 where
      r: "insert_sl rnd k d s = Some (Inr s1)" "inv sp ex s1 lv1"
        "content (store s1) lv1 = model_insert k d (content (store s) lv)"
      unfolding insert_sl_def by blast
    from Cons.prems(2,3) Insert r(3) have
      "sp \<longrightarrow> deletes_stored xs (content (store s1) lv1)" "sp \<and> ex \<longrightarrow> inserts_only xs"
      by simp_all
    from Cons.IH[OF r(2) this] r(1,3) Insert show ?thesis by simp
  next
    case (Delete k)
    from Cons.prems(1) have wf: "wf s lv" by (simp add: inv_def)
    from Cons.prems(2) Delete present_iff[OF wf, of k]
    have pr: "sp \<longrightarrow> Some k \<in> lane_keys (store s) (last lv)" by simp
    from delete_inv[OF Cons.prems(1) pr] obtain s1 where
      r: "delete k s = Some (Inr s1)" "inv sp False s1 (del_lanes k (store s) lv)"
        "content (store s1) (del_lanes k (store s) lv) = model_delete k (content (store s) lv)"
      by blast
    from Cons.prems(3) Delete have nx: "\<not> (sp \<and> ex)" by auto
    have i1: "inv sp ex s1 (del_lanes k (store s) lv)"
    proof (cases sp)
      case True
      with nx r(2) show ?thesis by simp
    next
      case False
      with r(2) show ?thesis by (simp add: inv_no_spans)
    qed
    from Cons.prems(2) Delete r(3) nx have
      "sp \<longrightarrow> deletes_stored xs (content (store s1) (del_lanes k (store s) lv))"
      "sp \<and> ex \<longrightarrow> inserts_only xs"
      by auto
    from Cons.IH[OF i1 this] r(1,3) Delete show ?thesis by simp
  qed
qed

lemma run_all:
  "\<exists>s lv. run ops SkipList_constructor = Some (Inr s) \<and> wf s lv
     \<and> content (store s) lv = model ops"
proof -
  have "inv False False SkipList_constructor [([1], 0)]"
    using inv_init by (simp add: inv_def)
  from run_inv[OF this, of ops] show ?thesis
    by (auto simp: inv_no_spans model_def)
qed

lemma run_stored:
  assumes "deletes_stored ops []"
  shows "\<exists>s lv. run ops SkipList_constructor = Some (Inr s) \<and> inv True False s lv
     \<and> content (store s) lv = model ops"
proof -
  have "inv True False SkipList_constructor [([1], 0)]"
    using inv_init by (auto simp: inv_def dest: spans_ok_weaken)
  from run_inv[OF this, of ops] assms show ?thesis
    by (auto simp: model_def)
qed

lemma run_inserts:
  assumes "inserts_only ops"
  shows "\<exists>s lv. run ops SkipList_constructor = Some (Inr s) \<and> inv True True s lv
     \<and> content (store s) lv = model ops"
proof -
  have "deletes_stored ops al" for al
    using assms by (induction ops al rule: deletes_stored.induct) auto
  with run_inv[OF inv_init, of ops] assms show ?thesis
    by (auto simp: model_def)
qed

lemma bottom_split:
  assumes wf: "wf s lv" and tr: "trace_ok (store s) k lv tr pes"
  obtains L R b where
    "content (store s) lv = L @ R" "\<forall>e \<in> set L. fst e < k" "\<forall>e \<in> set R. k \<le> fst e"
    "cnt (map fst L) (key (store s (node (last pes)))) = int (length L)"
    "cnt (map fst R) (key (store s (node (last pes)))) = 0"
    "right (store s (node (last pes))) = Some b"
    "key (store s b) = Some k \<longrightarrow> (\<exists>d0 R'. R = (k, d0) # R' \<and> data (store s b) = Some d0)"
    "key (store s b) \<noteq> Some k \<longrightarrow> (\<forall>e \<in> set R. k < fst e)"
proof -
  define h where "h = store s"
  from wf have ne: "lv \<noteq> []" by (auto simp: wf_def lanes_ok_iff)
  from tr have len: "length pes = length lv" by (simp add: trace_ok_def)
  with ne have pne: "pes \<noteq> []" by auto
  define i0 where "i0 = length lv - 1"
  from ne have i0: "i0 < length lv" unfolding i0_def by (cases lv) auto
  have lst: "last pes = pes ! i0" "last lv = lv ! i0"
    unfolding i0_def using last_conv_nth[OF pne] last_conv_nth[OF ne] len by simp_all
  define a where "a = node (last pes)"
  define t where "t = snd (last lv)"
  have ap: "approach h k (last lv) a"
    using trace_ok_nth(1)[OF tr i0] by (simp add: lst a_def h_def)
  have lane: "lane_ok h (last lv)" using wf_lane(1)[OF wf i0] by (simp add: lst h_def)
  from approach_split[OF lane ap] obtain pre post where
    sp: "fst (last lv) = pre @ a # post" "a \<notin> set pre" "a \<notin> set post"
    "\<forall>x \<in> set pre. key (h x) < key (h a)" "key (h a) < Some k"
    "\<forall>x \<in> set post. Some k \<le> key (h x)"
    "right (h a) = Some (case post of [] \<Rightarrow> snd (last lv) | b # _ \<Rightarrow> b)"
    by metis
  define b where "b = (case post of [] \<Rightarrow> snd (last lv) | b # _ \<Rightarrow> b)"
  have ra: "right (h a) = Some b" using sp(7) by (simp add: b_def)
  have ok: "lane_ok h (pre @ a # post, t)" using lane sp(1) unfolding t_def by (metis prod.collapse)
  define L where "L = map (entry h) (tl (pre @ [a]))"
  define R where "R = map (entry h) post"
  have tl: "tl (pre @ a # post) = tl (pre @ [a]) @ post" by (cases pre) simp_all
  have c: "content h lv = L @ R" unfolding content_eq sp(1) tl L_def R_def by simp
  have lo: "\<forall>x \<in> set (pre @ [a]). key (h x) < Some k" using sp(4,5) by (auto intro: less_trans)
  have m: "map fst L = map (\<lambda>x. fst (entry h x)) (tl (pre @ [a]))"
    "map fst R = map (\<lambda>x. fst (entry h x)) post"
    by (simp_all add: L_def R_def)
  from lane_keys_split[OF ok lo sp(6)] have
    ks: "\<forall>y \<in> set (map fst L). y < k" "\<forall>y \<in> set (map fst R). k \<le> y"
      "cnt (map fst L) (key (h a)) = int (length (map fst L))"
      "cnt (map fst R) (key (h a)) = 0"
    unfolding m by blast+
  have ksp: "key (h x) = Some (fst (entry h x))" if "x \<in> set post" for x
  proof -
    from that have "x \<in> set (tl (fst (pre @ a # post, t)))" by (simp add: tl)
    from lane_key_Some[OF ok this] show ?thesis .
  qed
  from lane have kt: "key (h (snd (last lv))) = None"
    and srt: "sorted_wrt (<) (map (\<lambda>a. key (h a)) (pre @ a # post))"
    by (simp_all add: lane_ok_def sp(1))
  have pres: "\<exists>d0 R'. R = (k, d0) # R' \<and> data (h b) = Some d0" if kb: "key (h b) = Some k"
  proof -
    from kb kt obtain post' where post: "post = b # post'" by (cases post) (auto simp: b_def)
    then have "b \<in> set (tl (fst (last lv)))" unfolding sp(1) by (cases pre) simp_all
    with wf obtain d0 where d0: "data (h b) = Some d0" by (auto simp: wf_def h_def)
    with kb have "entry h b = (k, d0)" by (simp add: entry_def)
    with post d0 show ?thesis by (simp add: R_def)
  qed
  have abs: "\<forall>e \<in> set R. k < fst e" if nk: "key (h b) \<noteq> Some k"
  proof
    fix e assume "e \<in> set R"
    then obtain x where x: "x \<in> set post" "e = entry h x" by (auto simp: R_def)
    then obtain b' post' where post: "post = b' # post'" by (cases post) auto
    then have bb: "b = b'" by (simp add: b_def)
    from sp(6) post bb nk have "Some k < key (h b)" by (auto simp: less_le)
    moreover from srt post bb have "\<forall>y \<in> set post'. key (h b) < key (h y)"
      by (auto simp: sorted_wrt_append)
    ultimately have "Some k < key (h x)" using x(1) post bb by (auto intro: less_trans)
    with ksp[OF x(1)] x(2) show "k < fst e" by simp
  qed
  show ?thesis
    using c ks ra pres abs
    by (intro that[of L R b]) (auto simp: h_def a_def)
qed

lemma find_wf:
  assumes wf: "wf s lv"
  shows "find_sl s k = Some (Inr (map_of (content (store s) lv) k))"
proof -
  from findPath_wf[OF wf, of k False "[]"] obtain tr pes where
    fp: "findPath s k = Some (Inr tr)" and tr: "trace_ok (store s) k lv tr pes"
    by blast
  from tr have l: "tr \<noteq> []" "last tr = last pes" by (simp_all add: trace_ok_def)
  from bottom_split[OF wf tr] obtain L R b where
    s: "content (store s) lv = L @ R" "\<forall>e \<in> set L. fst e < k" "\<forall>e \<in> set R. k \<le> fst e"
    "right (store s (node (last pes))) = Some b"
    "key (store s b) = Some k \<longrightarrow> (\<exists>d0 R'. R = (k, d0) # R' \<and> data (store s b) = Some d0)"
    "key (store s b) \<noteq> Some k \<longrightarrow> (\<forall>e \<in> set R. k < fst e)"
    by metis
  from s(2) have nl: "map_of L k = None" by (force simp: map_of_eq_None_iff)
  show ?thesis
  proof (cases "key (store s b) = Some k")
    case True
    with s(5) obtain d0 R' where r: "R = (k, d0) # R'" "data (store s b) = Some d0" by blast
    with fp l s(4) True nl show ?thesis
      by (simp add: find_sl_def lastElement_def s(1) map_add_def)
  next
    case False
    with s(6) have "map_of R k = None" by (force simp: map_of_eq_None_iff)
    with fp l s(4) False nl show ?thesis
      by (simp add: find_sl_def lastElement_def s(1) map_add_def)
  qed
qed

lemma rank_wf:
  assumes inv: "inv True ex s lv"
  shows "findRankOfKey s k = Some (Inr
     (if k \<in> fst ` set (content (store s) lv)
      then Some (int (length (filter (\<lambda>e. fst e < k) (content (store s) lv))))
      else None))"
proof -
  define K where "K = map fst (content (store s) lv)"
  from inv have wf: "wf s lv"
    and sp: "\<forall>l \<in> set lv. spans_ok ex (store s) K (fst l)"
    by (simp_all add: inv_def K_def)
  from findPath_wf[OF wf, of k ex K] sp obtain tr pes where
    fp: "findPath s k = Some (Inr tr)" and tr: "trace_ok (store s) k lv tr pes"
    and rk: "ranks_ok (store s) K pes"
    by blast
  from tr have l: "tr \<noteq> []" "last tr = last pes" and len: "length pes = length lv"
    by (simp_all add: trace_ok_def)
  from wf have "lv \<noteq> []" by (auto simp: wf_def lanes_ok_iff)
  with len have pn: "pes \<noteq> []" by auto
  from bottom_split[OF wf tr] obtain L R b where
    s: "content (store s) lv = L @ R" "\<forall>e \<in> set L. fst e < k" "\<forall>e \<in> set R. k \<le> fst e"
    "cnt (map fst L) (key (store s (node (last pes)))) = int (length L)"
    "cnt (map fst R) (key (store s (node (last pes)))) = 0"
    "right (store s (node (last pes))) = Some b"
    "key (store s b) = Some k \<longrightarrow> (\<exists>d0 R'. R = (k, d0) # R' \<and> data (store s b) = Some d0)"
    "key (store s b) \<noteq> Some k \<longrightarrow> (\<forall>e \<in> set R. k < fst e)"
    by metis
  from rk pn have "rank (last pes) = cnt K (key (store s (node (last pes)))) - 1"
    by (simp add: ranks_ok_def)
  also have "cnt K (key (store s (node (last pes)))) = int (length L)"
    unfolding K_def s(1) using s(4,5) by (simp add: cnt_append)
  finally have r: "rank (last pes) + 1 = int (length L)" by simp
  have f: "filter (\<lambda>e. fst e < k) L = L" "filter (\<lambda>e. fst e < k) R = []"
    using s(2,3) by (force simp: filter_id_conv filter_empty_conv)+
  show ?thesis
  proof (cases "key (store s b) = Some k")
    case True
    with s(7) have "k \<in> fst ` set (L @ R)" by force
    with fp l s(6) True r show ?thesis
      by (simp add: findRankOfKey_def lastElement_def s(1) f)
  next
    case False
    with s(2,8) have "k \<notin> fst ` set (L @ R)" by force
    with fp l s(6) False show ?thesis
      by (simp add: findRankOfKey_def lastElement_def s(1))
  qed
qed

lemma sorted_index_count:
  fixes al :: "(int \<times> int) list"
  assumes "sorted_wrt (<) (map fst al)" "i < length al"
  shows "length (filter (\<lambda>e. fst e < fst (al ! i)) al) = i"
proof -
  have e: "al = take i al @ al ! i # drop (Suc i) al" using assms(2) by (simp add: id_take_nth_drop)
  from assms(1) have s: "sorted_wrt (\<lambda>x y. fst x < fst y) al" by (simp add: sorted_wrt_map)
  then have s': "sorted_wrt (\<lambda>x y. fst x < fst y) (take i al @ al ! i # drop (Suc i) al)"
    using e by simp
  from s' have lo: "\<forall>e \<in> set (take i al). fst e < fst (al ! i)"
    and hi: "\<forall>e \<in> set (drop (Suc i) al). fst (al ! i) < fst e"
    by (auto simp: sorted_wrt_append)
  have f1: "filter (\<lambda>e. fst e < fst (al ! i)) (take i al) = take i al"
    using lo by (simp add: filter_id_conv)
  have f2: "filter (\<lambda>e. fst e < fst (al ! i)) (drop (Suc i) al) = []"
    using hi by (force simp: filter_empty_conv)
  have "filter (\<lambda>e. fst e < fst (al ! i)) (take i al @ al ! i # drop (Suc i) al) = take i al"
    by (simp add: f1 f2)
  then have "length (filter (\<lambda>e. fst e < fst (al ! i)) (take i al @ al ! i # drop (Suc i) al)) = i"
    using assms(2) by simp
  then show ?thesis using e by simp
qed

lemma findByRank_loop_step:
  "right (h a) = Some b \<Longrightarrow>
   findByRank_loop h r rc a =
     (if rc < r then
        (if rc + span_sl (h a) < r \<and> key (h b) \<noteq> None
         then findByRank_loop h r (rc + span_sl (h a)) b
         else (case down (h a) of
                 Some d \<Rightarrow> findByRank_loop h r rc d
               | None \<Rightarrow> Some (Inr a)))
      else Some (Inr a))"
  by (subst findByRank_loop.simps) auto

lemma byRank_walk:
  assumes "lanes_ok h lv" "fst (hd lv) = pre @ a # post"
  shows "\<exists>nxt l. findByRank_loop h r rc a = Some (Inr nxt) \<and> l \<in> set lv \<and> nxt \<in> set (fst l)"
  using assms
proof (induction lv arbitrary: pre a post rc)
  case Nil
  then show ?case by simp
next
  case (Cons u rest)
  have lane: "lane_ok h u" using Cons.prems(1) by simp
  have descend: "\<exists>nxt l.
      (case down (h a) of Some d \<Rightarrow> findByRank_loop h r rc d | None \<Rightarrow> Some (Inr a))
        = Some (Inr nxt) \<and> l \<in> set (u # rest) \<and> nxt \<in> set (fst l)"
    if a: "a \<in> set (fst u)" for a rc
  proof (cases rest)
    case Nil
    with Cons.prems(1) a have "down (h a) = None" by auto
    with a show ?thesis by (intro exI[of _ a] exI[of _ u]) simp
  next
    case (Cons l rest')
    from Cons.prems(1) Cons have lk: "links h u l" and lo: "lanes_ok h rest" by auto
    from lk a obtain d where d: "d \<in> set (fst l)" "down (h a) = Some d"
      by (auto simp: links_def)
    from d(1) obtain pre' post' where sp: "fst l = pre' @ d # post'" by (auto dest: split_list)
    have "fst (hd rest) = pre' @ d # post'" using sp Cons by simp
    from Cons.IH[OF lo this, of rc]
    obtain nxt l' where "findByRank_loop h r rc d = Some (Inr nxt)" "l' \<in> set rest" "nxt \<in> set (fst l')"
      by blast
    with d(2) show ?thesis by (intro exI[of _ nxt] exI[of _ l']) simp
  qed
  show ?case using Cons.prems(2)
  proof (induction post arbitrary: pre a rc)
    case Nil
    from lane Nil have r: "right (h a) = Some (snd u)" and kt: "key (h (snd u)) = None"
      by (auto simp: lane_ok_def dest: chain_mid)
    from Nil have a: "a \<in> set (fst u)" by simp
    define D where "D = (case down (h a) of Some d \<Rightarrow> findByRank_loop h r rc d | None \<Rightarrow> Some (Inr a))"
    from descend[OF a, of rc] obtain nxt l where
      d: "D = Some (Inr nxt)" "l \<in> set (u # rest)" "nxt \<in> set (fst l)"
      unfolding D_def by blast
    have eq: "findByRank_loop h r rc a = (if rc < r then D else Some (Inr a))"
      by (simp add: findByRank_loop_step[where h=h and a=a, OF r] kt D_def)
    show ?case
    proof (cases "rc < r")
      case True
      with eq have "findByRank_loop h r rc a = D" by simp
      with d show ?thesis by blast
    next
      case False
      with eq have "findByRank_loop h r rc a = Some (Inr a)" by simp
      moreover have "u \<in> set (u # rest)" by simp
      ultimately show ?thesis using a by blast
    qed
  next
    case (Cons b post')
    from lane Cons.prems have r: "right (h a) = Some b"
      by (auto simp: lane_ok_def dest: chain_mid)
    from Cons.prems have a: "a \<in> set (fst u)" by simp
    have "fst (hd (u # rest)) = (pre @ [a]) @ b # post'" using Cons.prems by simp
    from Cons.IH[OF this, of "rc + span_sl (h a)"]
    obtain nxt1 l1 where m: "findByRank_loop h r (rc + span_sl (h a)) b = Some (Inr nxt1)"
        "l1 \<in> set (u # rest)" "nxt1 \<in> set (fst l1)" by blast
    define D where "D = (case down (h a) of Some d \<Rightarrow> findByRank_loop h r rc d | None \<Rightarrow> Some (Inr a))"
    from descend[OF a, of rc] obtain nxt l where
      d: "D = Some (Inr nxt)" "l \<in> set (u # rest)" "nxt \<in> set (fst l)"
      unfolding D_def by blast
    have eq: "findByRank_loop h r rc a =
       (if rc < r then
          (if rc + span_sl (h a) < r \<and> key (h b) \<noteq> None
           then findByRank_loop h r (rc + span_sl (h a)) b else D)
        else Some (Inr a))"
      unfolding D_def by (rule findByRank_loop_step[where h=h and a=a, OF r])
    show ?case
    proof (cases "rc < r")
      case True
      show ?thesis
      proof (cases "rc + span_sl (h a) < r \<and> key (h b) \<noteq> None")
        case True
        with \<open>rc < r\<close> eq have "findByRank_loop h r rc a = Some (Inr nxt1)" by (simp add: m(1))
        with m(2,3) show ?thesis by blast
      next
        case False
        with \<open>rc < r\<close> eq have "findByRank_loop h r rc a = D" by auto
        with d show ?thesis by blast
      qed
    next
      case False
      with eq have "findByRank_loop h r rc a = Some (Inr a)" by simp
      moreover have "u \<in> set (u # rest)" by simp
      ultimately show ?thesis using a by blast
    qed
  qed
qed

lemma chain_right:
  assumes "chain h ns t" "a \<in> set ns"
  shows "\<exists>b. right (h a) = Some b"
proof -
  from assms(2) obtain pre post where "ns = pre @ a # post" by (auto dest: split_list)
  with assms(1) show ?thesis by (auto dest: chain_mid)
qed

lemma findByRank_wf:
  assumes wf: "wf s lv"
  shows "\<exists>v. findByRank s r = Some (Inr v)"
proof -
  from wf have lo: "lanes_ok (store s) lv" and hd: "head s = hd (fst (hd lv))"
    by (simp_all add: wf_def)
  from lo have ne: "lv \<noteq> []" by (cases lv) auto
  with lo have "lane_ok (store s) (hd lv)" by (cases lv) auto
  then have "fst (hd lv) \<noteq> []" by (simp add: lane_ok_def)
  then have sp: "fst (hd lv) = [] @ head s # tl (fst (hd lv))" using hd by simp
  from byRank_walk[OF lo sp, of r "- 1"] obtain nxt l where
    n: "findByRank_loop (store s) r (- 1) (head s) = Some (Inr nxt)" "l \<in> set lv" "nxt \<in> set (fst l)"
    by blast
  from n(2) obtain i where "i < length lv" "l = lv ! i" by (auto simp: in_set_conv_nth)
  with wf_lane(1)[OF wf] have "lane_ok (store s) l" by simp
  then have "chain (store s) (fst l) (snd l)" by (simp add: lane_ok_def)
  from chain_right[OF this n(3)] obtain b where "right (store s nxt) = Some b" by blast
  with n(1) show ?thesis by (simp add: findByRank_def)
qed

lemma findRankOfKey_wf:
  assumes wf: "wf s lv"
  shows "\<exists>v. findRankOfKey s k = Some (Inr v)"
proof -
  from findPath_wf[OF wf, of k False "[]"] obtain tr pes where
    fp: "findPath s k = Some (Inr tr)" and tr: "trace_ok (store s) k lv tr pes"
    by blast
  from tr have l: "tr \<noteq> []" "last tr = last pes" by (simp_all add: trace_ok_def)
  from bottom_split[OF wf tr] obtain b where "right (store s (node (last pes))) = Some b"
    by metis
  with fp l show ?thesis by (simp add: findRankOfKey_def lastElement_def)
qed

lemma on_chain_lanes:
  assumes wf: "wf s lv" and a: "a \<in> on_chain s"
  shows "\<exists>i < length lv. a \<in> nodes (lv ! i)"
  using a
proof (induction rule: on_chain.induct)
  case head
  from wf have ne: "lv \<noteq> []" and hd: "head s = hd (fst (hd lv))"
    by (auto simp: wf_def lanes_ok_iff)
  from ne have z: "0 < length lv" by simp
  from wf_lane(1)[OF wf z] have "fst (lv ! 0) \<noteq> []" by (simp add: lane_ok_def)
  with hd ne have "head s \<in> nodes (lv ! 0)" by (simp add: nodes_def hd_conv_nth)
  with z show ?case by blast
next
  case (right a b)
  then obtain i where i: "i < length lv" "a \<in> nodes (lv ! i)" by blast
  from wf_lane(1)[OF wf i(1)] have ch: "chain (store s) (fst (lv ! i)) (snd (lv ! i))"
    and rt: "right (store s (snd (lv ! i))) = None"
    by (simp_all add: lane_ok_def)
  from i(2) rt right.hyps(2) have m: "a \<in> set (fst (lv ! i))" by (auto simp: nodes_def)
  then obtain pre post where sp: "fst (lv ! i) = pre @ a # post" by (auto dest: split_list)
  from chain_mid[of "store s" pre a post] ch sp right.hyps(2)
  have "b = (case post of [] \<Rightarrow> snd (lv ! i) | b # _ \<Rightarrow> b)" by simp
  then have "b \<in> nodes (lv ! i)" using sp by (auto simp: nodes_def split: list.splits)
  with i(1) show ?case by blast
next
  case (down a b)
  then obtain i where i: "i < length lv" "a \<in> nodes (lv ! i)" by blast
  from wf have lo: "lanes_ok (store s) lv" by (simp add: wf_def)
  show ?case
  proof (cases "Suc i < length lv")
    case True
    with lo have lk: "links (store s) (lv ! i) (lv ! Suc i)" by (simp add: lanes_ok_iff)
    with i(2) down.hyps(2) have "b \<in> nodes (lv ! Suc i)"
      by (auto simp: links_def nodes_def)
    with True show ?thesis by blast
  next
    case False
    with i(1) have "i = length lv - 1" by simp
    moreover from i(1) have "lv \<noteq> []" by auto
    ultimately have "last lv = lv ! i" by (simp add: last_conv_nth)
    with lo have "bottom_ok (store s) (lv ! i)" by (simp add: lanes_ok_iff)
    with i(2) down.hyps(2) show ?thesis by (auto simp: bottom_ok_def nodes_def)
  qed
qed

lemma terminators_lanes:
  assumes wf: "wf s lv" and i: "i < length lv"
  shows "snd (lv ! i) \<in> terminators s"
  using i
proof (induction i)
  case 0
  from wf have "topRight s = snd (hd lv)" and "lv \<noteq> []" by (auto simp: wf_def lanes_ok_iff)
  then have "snd (lv ! 0) = topRight s" by (simp add: hd_conv_nth)
  then show ?case using terminators.top[of s] by simp
next
  case (Suc i)
  then have t: "snd (lv ! i) \<in> terminators s" by simp
  from wf Suc.prems have "links (store s) (lv ! i) (lv ! Suc i)" by (simp add: wf_def lanes_ok_iff)
  then have "down (store s (snd (lv ! i))) = Some (snd (lv ! Suc i))" by (simp add: links_def)
  from terminators.below[OF t this] show ?case .
qed

lemma null_right_is_terminator:
  assumes wf: "wf s lv" and a: "a \<in> on_chain s" and r: "right (store s a) = None"
  shows "a \<in> terminators s"
proof -
  from on_chain_lanes[OF wf a] obtain i where i: "i < length lv" "a \<in> nodes (lv ! i)" by blast
  from wf_lane(1)[OF wf i(1)] have "chain (store s) (fst (lv ! i)) (snd (lv ! i))"
    by (simp add: lane_ok_def)
  have "a \<notin> set (fst (lv ! i))"
  proof
    assume "a \<in> set (fst (lv ! i))"
    from chain_right[OF \<open>chain (store s) (fst (lv ! i)) (snd (lv ! i))\<close> this] r show False by simp
  qed
  with i(2) have "a = snd (lv ! i)" by (simp add: nodes_def)
  with terminators_lanes[OF wf i(1)] show ?thesis by simp
qed

lemma model_delete_absent:
  "k \<notin> fst ` set al \<Longrightarrow> model_delete k al = al"
  by (induction al) (auto simp: model_delete_def)

lemma count_less_remove:
  fixes al :: "(int \<times> int) list"
  assumes "distinct (map fst al)" "k \<in> fst ` set al"
  shows "int (length (filter (\<lambda>e. fst e < k') (model_delete k al)))
       = int (length (filter (\<lambda>e. fst e < k') al)) - (if k < k' then 1 else 0)"
  using assms
proof (induction al)
  case Nil
  then show ?case by simp
next
  case (Cons e al)
  show ?case
  proof (cases "fst e = k")
    case True
    with Cons.prems have "k \<notin> fst ` set al" by auto
    then have "model_delete k al = al" by (rule model_delete_absent)
    with True show ?thesis by (simp add: model_delete_def)
  next
    case False
    with Cons.prems have "distinct (map fst al)" "k \<in> fst ` set al" by auto
    from Cons.IH[OF this] False show ?thesis
      by (auto simp: model_delete_def split: if_splits)
  qed
qed

lemma model_delete_keys:
  "fst ` set (model_delete k al) = fst ` set al - {k}"
  by (auto simp: model_delete_def)

lemma model_delete_map_of:
  "map_of (model_delete k al) k = None"
  by (simp add: map_of_eq_None_iff model_delete_keys)

lemma delete_absent:
  assumes wf: "wf s lv" and ab: "k \<notin> fst ` set (content (store s) lv)"
  shows "\<exists>path s'. findInsertPath s k = Some (Inr (map Some path))
     \<and> map level path = map int (rev [0..<nat (levelsCount s)])
     \<and> distinct (map node path)
     \<and> (\<forall>pe \<in> set path. \<exists>b. right (store s (node pe)) = Some b \<and> key (store s b) \<noteq> Some k)
     \<and> delete k s = Some (Inr s')
     \<and> s' = s\<lparr>store := \<lambda>x. if x \<in> node ` set path
                             then (store s x)\<lparr>span_sl := span_sl (store s x) - 1\<rparr>
                             else store s x\<rparr>"
proof -
  from delete_run[OF wf, of k] obtain pes tr s' where
    fp: "findInsertPath s k = Some (Inr (map Some pes))"
    and tr: "trace_ok (store s) k lv tr pes"
    and res: "delete k s = Some (Inr s')"
    and fr: "del_frame k s pes s'"
    and ds: "distinct (map node pes)"
    by metis
  from wf have lo: "lanes_ok (store s) lv" and n: "levelsCount s = int (length lv)"
    by (simp_all add: wf_def)
  from tr have len: "length pes = length lv"
    and lvl: "map level pes = map int (rev [0..<length lv])"
    by (simp_all add: trace_ok_def)
  from ab have nk: "Some k \<notin> lane_keys (store s) (last lv)" by (simp add: present_iff[OF wf])
  have nb: "\<exists>b. right (store s (node pe)) = Some b \<and> key (store s b) \<noteq> Some k"
    if "pe \<in> set pes" for pe
  proof -
    from that len obtain i where i: "i < length lv" "pe = pes ! i"
      by (auto simp: in_set_conv_nth)
    from trace_ok_nth(1)[OF tr i(1)] i(2) have ap: "approach (store s) k (lv ! i) (node pe)"
      by simp
    then obtain b where b: "right (store s (node pe)) = Some b" by (auto simp: approach_def)
    from i(1) have "lv ! i \<in> set lv" by simp
    from lane_keys_subset[OF lo this] nk have "Some k \<notin> lane_keys (store s) (lv ! i)" by blast
    with approach_right_key[OF wf_lane(1)[OF wf i(1)] ap b] have "key (store s b) \<noteq> Some k"
      by simp
    with b show ?thesis by blast
  qed
  have st: "store s' = (\<lambda>x. if x \<in> node ` set pes
                             then (store s x)\<lparr>span_sl := span_sl (store s x) - 1\<rparr>
                             else store s x)"
  proof (intro ext)
    fix x
    show "store s' x = (if x \<in> node ` set pes
                             then (store s x)\<lparr>span_sl := span_sl (store s x) - 1\<rparr>
                             else store s x)"
    proof (cases "x \<in> node ` set pes")
      case True
      then obtain pe where "pe \<in> set pes" "x = node pe" by blast
      with nb obtain b where "right (store s x) = Some b" "key (store s b) \<noteq> Some k" by blast
      then have "del_node k (store s) x = (store s x)\<lparr>span_sl := span_sl (store s x) - 1\<rparr>"
        by (simp add: del_node_def)
      with fr True show ?thesis by (simp add: del_frame_def)
    next
      case False
      with fr show ?thesis by (simp add: del_frame_def)
    qed
  qed
  from fr have "s' = s\<lparr>store := store s'\<rparr>"
    by (intro skipList.equality) (simp_all add: del_frame_def)
  with st have "s' = s\<lparr>store := \<lambda>x. if x \<in> node ` set pes
                             then (store s x)\<lparr>span_sl := span_sl (store s x) - 1\<rparr>
                             else store s x\<rparr>" by simp
  with fp lvl n ds nb res show ?thesis by (intro exI[of _ pes] exI[of _ s']) simp
qed

lemma answer_wf:
  assumes "wf s lv"
  shows "\<exists>v. answer q s = Some (Inr v)"
proof (cases q)
  case (Find k)
  with find_wf[OF assms, of k] show ?thesis by simp
next
  case (FindRankOfKey k)
  with findRankOfKey_wf[OF assms, of k] show ?thesis by simp
next
  case (FindByRank n)
  with findByRank_wf[OF assms, of n] show ?thesis by simp
qed

lemma addLevels_loop_fields:
  "levelsCount (addLevels_loop n s) = levelsCount s"
  "fresh (addLevels_loop n s) = fresh s + 2 * n"
proof -
  have "levelsCount (addLevels_loop n s) = levelsCount s \<and> fresh (addLevels_loop n s) = fresh s + 2 * n"
  proof (induction n arbitrary: s)
    case 0
    show ?case by simp
  next
    case (Suc n)
    have "levelsCount (addLevel s) = levelsCount s" by (simp add: addLevel_def)
    with Suc[of "addLevel s"] show ?case unfolding addLevels_loop_Suc by simp
  qed
  then show "levelsCount (addLevels_loop n s) = levelsCount s"
    "fresh (addLevels_loop n s) = fresh s + 2 * n" by simp_all
qed

lemma addLevels_fields:
  "levelsCount (addLevelsAccordingToNewLevelsCount H s) = max (levelsCount s) H"
  "fresh (addLevelsAccordingToNewLevelsCount H s) = fresh s + 2 * nat (H - levelsCount s)"
  "H \<le> levelsCount s \<Longrightarrow> addLevelsAccordingToNewLevelsCount H s = s"
  by (simp_all add: addLevelsAccordingToNewLevelsCount_def Let_def addLevels_loop_fields)

lemma model_insert_map_of: "map_of (model_insert k d al) k = Some d"
  by (induction al) auto

lemma replace_effect:
  assumes inv: "inv sp ex s lv" and pr: "k \<in> fst ` set (content (store s) lv)"
  shows "\<exists>r s' lv'. insertWithLevel H k d s = Some (Inr s')
     \<and> r < fresh s \<and> key (store s r) = Some k
     \<and> (\<forall>x < fresh s. store s' x = (if x = r then (store s x)\<lparr>data := Some d\<rparr> else store s x))
     \<and> itemsCount s' = itemsCount s
     \<and> levelsCount s' = max (levelsCount s) H
     \<and> fresh s' = fresh s + 2 * nat (H - levelsCount s)
     \<and> (H \<le> levelsCount s \<longrightarrow> s' = s\<lparr>store := (store s)(r := (store s r)\<lparr>data := Some d\<rparr>)\<rparr>)
     \<and> inv sp ex s' lv' \<and> content (store s') lv' = model_insert k d (content (store s) lv)"
proof -
  define s1 where "s1 = addLevelsAccordingToNewLevelsCount H s"
  from inv have wf: "wf s lv" by (simp add: inv_def)
  from wf have ne: "lv \<noteq> []" by (auto simp: wf_def lanes_ok_iff)
  from addLevels_inv[OF inv, of H] obtain lv1 where
    g: "inv sp ex s1 lv1" "content (store s1) lv1 = content (store s) lv" "last lv1 = last lv"
      "\<forall>x < fresh s. store s1 x = store s x" "itemsCount s1 = itemsCount s"
    unfolding s1_def by blast
  from g(1) have wf1: "wf s1 lv1" by (simp add: inv_def)
  from pr have "Some k \<in> lane_keys (store s1) (last lv1)" by (simp add: present_iff[OF wf1] g(2))
  from insert_rest_replace[OF g(1) this, of H d] obtain r where
    r: "insert_rest H k d s1 = Some (Inr (s1\<lparr>store := (store s1)(r := (store s1 r)\<lparr>data := Some d\<rparr>)\<rparr>))"
      "key (store s1 r) = Some k" "r \<in> set (tl (fst (last lv1)))"
      "inv sp ex (s1\<lparr>store := (store s1)(r := (store s1 r)\<lparr>data := Some d\<rparr>)\<rparr>) lv1"
      "content ((store s1)(r := (store s1 r)\<lparr>data := Some d\<rparr>)) lv1
         = model_insert k d (content (store s1) lv1)"
    by blast
  define s' where "s' = s1\<lparr>store := (store s1)(r := (store s1 r)\<lparr>data := Some d\<rparr>)\<rparr>"
  from r(3) have "r \<in> set (fst (last lv))" unfolding g(3) by (rule set_tl_subset)
  then have "r \<in> nodes (last lv)" by (simp add: nodes_def)
  moreover from ne have "last lv \<in> set lv" by simp
  ultimately have rf: "r < fresh s" using wf unfolding wf_def by blast
  have a: "insertWithLevel H k d s = Some (Inr s')"
    unfolding insertWithLevel_def s1_def[symmetric] s'_def by (rule r(1))
  from rf g(4) r(2) have b: "key (store s r) = Some k" by simp
  from g(4) have c: "\<forall>x < fresh s. store s' x = (if x = r then (store s x)\<lparr>data := Some d\<rparr> else store s x)"
    by (simp add: s'_def)
  from g(5) have d: "itemsCount s' = itemsCount s" by (simp add: s'_def)
  have e: "levelsCount s' = max (levelsCount s) H"
    "fresh s' = fresh s + 2 * nat (H - levelsCount s)"
    by (simp_all add: s'_def s1_def addLevels_fields)
  have f: "s' = s\<lparr>store := (store s)(r := (store s r)\<lparr>data := Some d\<rparr>)\<rparr>" if "H \<le> levelsCount s"
    using that by (simp add: s'_def s1_def addLevels_fields)
  from r(4) have i: "inv sp ex s' lv1" by (simp add: s'_def)
  from r(5) g(2) have j: "content (store s') lv1 = model_insert k d (content (store s) lv)"
    by (simp add: s'_def)
  from a rf b c d e f i j show ?thesis by blast
qed

lemma levelSpanSum_chain:
  assumes "chain h (pre @ a # post) t" "right (h t) = None"
  shows "levelSpanSum h acc a = Some (acc + sum_list (map (\<lambda>x. span_sl (h x)) (a # post)))"
  using assms
proof (induction post arbitrary: pre a acc)
  case Nil
  from chain_mid[OF Nil(1)] have "right (h a) = Some t" by simp
  with Nil(2) show ?case
    by (subst levelSpanSum.simps, simp, subst levelSpanSum.simps, simp)
next
  case (Cons b post)
  from chain_mid[OF Cons.prems(1)] have r: "right (h a) = Some b" by simp
  from Cons.prems(1) have "chain h ((pre @ [a]) @ b # post) t" by simp
  from Cons.IH[OF this Cons.prems(2), of "acc + span_sl (h a)"] r show ?case
    by (subst levelSpanSum.simps) simp
qed

lemma sumSpans_chain:
  assumes "chain h (pre @ a # mid @ post) t"
    and "b = (case post of [] \<Rightarrow> t | x # _ \<Rightarrow> x)"
    and "b \<notin> set (a # mid)"
  shows "sumSpans h acc a b = Some (acc + sum_list (map (\<lambda>x. span_sl (h x)) (a # mid)))"
  using assms
proof (induction mid arbitrary: pre a acc)
  case Nil
  from chain_mid[OF Nil(1)[simplified]] Nil(2) have "right (h a) = Some b" by simp
  with Nil(3) show ?case
    by (subst sumSpans.simps, simp, subst sumSpans.simps, simp)
next
  case (Cons m mid)
  from chain_mid[of h pre a "m # mid @ post" t] Cons.prems(1) have r: "right (h a) = Some m" by simp
  from Cons.prems(1) have "chain h ((pre @ [a]) @ m # mid @ post) t" by simp
  from Cons.IH[OF this Cons.prems(2), of "acc + span_sl (h a)"] Cons.prems(3) r show ?case
    by (subst sumSpans.simps) simp
qed

lemma spans_sum_to_end:
  "spans_ok True h K (a # post) \<Longrightarrow>
     sum_list (map (\<lambda>x. span_sl (h x)) (a # post)) = int (length K) + 1 - cnt K (key (h a))"
  by (induction post arbitrary: a) auto

lemma spans_sum_segment:
  "spans_ok ex h K (pre @ a # mid @ b # post) \<Longrightarrow>
     sum_list (map (\<lambda>x. span_sl (h x)) (a # mid)) = cnt K (key (h b)) - cnt K (key (h a))"
proof (induction mid arbitrary: pre a)
  case Nil
  then show ?case using spans_mid[of ex h K pre a b post] by simp
next
  case (Cons m mid)
  from spans_mid[of ex h K pre a m "mid @ b # post"] Cons.prems
  have "span_sl (h a) = cnt K (key (h m)) - cnt K (key (h a))" by simp
  moreover from Cons.prems have "spans_ok ex h K ((pre @ [a]) @ m # mid @ b # post)" by simp
  from Cons.IH[OF this]
  have "sum_list (map (\<lambda>x. span_sl (h x)) (m # mid)) = cnt K (key (h b)) - cnt K (key (h m))" .
  ultimately show ?case by simp
qed

lemma spans_suffix:
  "spans_ok ex h K (pre @ ns) \<Longrightarrow> spans_ok ex h K ns"
  by (induction pre rule: induct_list012) (auto elim: spans_ok.elims)

lemma lane_head_unique:
  assumes "lane_ok h l" "d \<in> set (fst l)" "key (h d) = None"
  shows "d = hd (fst l)"
proof -
  from assms(1) obtain x xs where l: "fst l = x # xs" by (cases "fst l") (auto simp: lane_ok_def)
  from assms(1) l have "\<forall>y \<in> set xs. key (h x) < key (h y)" by (auto simp: lane_ok_def)
  with assms(3) have "d \<notin> set xs" by auto
  with assms(2) l show ?thesis by simp
qed

lemma level_heads_lanes:
  assumes wf: "wf s lv" and a: "a \<in> level_heads s"
  shows "\<exists>i < length lv. a = hd (fst (lv ! i))"
  using a
proof (induction rule: level_heads.induct)
  case top
  from wf have "lv \<noteq> []" and "head s = hd (fst (hd lv))" by (auto simp: wf_def lanes_ok_iff)
  then have "0 < length lv" "head s = hd (fst (lv ! 0))" by (simp_all add: hd_conv_nth)
  then show ?case by blast
next
  case (below a a')
  then obtain i where i: "i < length lv" "a = hd (fst (lv ! i))" by blast
  from wf have lo: "lanes_ok (store s) lv" by (simp add: wf_def)
  from wf_lane(1)[OF wf i(1)] have la: "lane_ok (store s) (lv ! i)" .
  then have m: "a \<in> set (fst (lv ! i))" and k: "key (store s a) = None"
    using i(2) by (auto simp: lane_ok_def)
  show ?case
  proof (cases "Suc i < length lv")
    case True
    with lo have "links (store s) (lv ! i) (lv ! Suc i)" by (simp add: lanes_ok_iff)
    with m below.hyps(2) k have "a' \<in> set (fst (lv ! Suc i))" "key (store s a') = None"
      by (auto simp: links_def)
    from lane_head_unique[OF wf_lane(1)[OF wf True] this] True show ?thesis by blast
  next
    case False
    with i(1) have "i = length lv - 1" by simp
    moreover from i(1) have "lv \<noteq> []" by auto
    ultimately have "last lv = lv ! i" by (simp add: last_conv_nth)
    with lo have "bottom_ok (store s) (lv ! i)" by (simp add: lanes_ok_iff)
    with m below.hyps(2) show ?thesis by (auto simp: bottom_ok_def)
  qed
qed

lemma level_sum:
  assumes inv: "inv True True s lv" and a: "a \<in> level_heads s"
  shows "levelSpanSum (store s) 0 a = Some (itemsCount s + 1)"
proof -
  define K where "K = map fst (content (store s) lv)"
  from inv have wf: "wf s lv" and n: "itemsCount s = int (length K)"
    and sp: "\<forall>l \<in> set lv. spans_ok True (store s) K (fst l)"
    by (simp_all add: inv_def K_def)
  from level_heads_lanes[OF wf a] obtain i where i: "i < length lv" "a = hd (fst (lv ! i))"
    by blast
  from wf_lane(1)[OF wf i(1)] have la: "lane_ok (store s) (lv ! i)" .
  then obtain post where l: "fst (lv ! i) = [] @ a # post" using i(2)
    by (cases "fst (lv ! i)") (auto simp: lane_ok_def)
  from la l have ch: "chain (store s) ([] @ a # post) (snd (lv ! i))"
    and rt: "right (store s (snd (lv ! i))) = None" and k: "key (store s a) = None"
    by (auto simp: lane_ok_def)
  from i(1) sp l have "spans_ok True (store s) K (a # post)" by (metis append_Nil nth_mem)
  from spans_sum_to_end[OF this] k
  have "sum_list (map (\<lambda>x. span_sl (store s x)) (a # post)) = int (length K) + 1" by simp
  with levelSpanSum_chain[OF ch rt, of 0] n show ?thesis by simp
qed

lemma span_aggregates:
  assumes inv: "inv True True s lv" and a: "a \<in> on_chain s"
    and r: "right (store s a) = Some b" and d: "down (store s a) = Some a'"
    and d': "down (store s b) = Some b'"
  shows "sumSpans (store s) 0 a' b' = Some (span_sl (store s a))"
proof -
  define h where "h = store s"
  define K where "K = map fst (content (store s) lv)"
  from inv have wf: "wf s lv"
    and sp: "\<And>l. l \<in> set lv \<Longrightarrow> spans_ok True h K (fst l)"
    by (simp_all add: inv_def K_def h_def)
  from wf have lo: "lanes_ok h lv" by (simp add: wf_def h_def)
  from on_chain_lanes[OF wf a] obtain i where i: "i < length lv" "a \<in> nodes (lv ! i)" by blast
  define u where "u = lv ! i"
  from wf_lane(1)[OF wf i(1)] have la: "lane_ok h u" by (simp add: u_def h_def)
  then have rt: "right (h (snd u)) = None" and ch: "chain h (fst u) (snd u)"
    and srt: "sorted_wrt (<) (map (\<lambda>a. key (h a)) (fst u))"
    by (simp_all add: lane_ok_def)
  from i(2) rt r have m: "a \<in> set (fst u)" by (auto simp: nodes_def u_def h_def)
  have si: "Suc i < length lv"
  proof (rule ccontr)
    assume "\<not> Suc i < length lv"
    with i(1) have "i = length lv - 1" by simp
    moreover from i(1) have "lv \<noteq> []" by auto
    ultimately have "last lv = lv ! i" by (simp add: last_conv_nth)
    with lo have "bottom_ok h u" by (simp add: lanes_ok_iff u_def)
    with m d show False by (auto simp: bottom_ok_def h_def)
  qed
  define l where "l = lv ! Suc i"
  from lo si have lk: "links h u l" by (simp add: lanes_ok_iff u_def l_def)
  from wf_lane(1,2)[OF wf si] have ll: "lane_ok h l" and tn: "snd l \<notin> set (fst l)"
    by (simp_all add: l_def h_def)
  from ll have ch': "chain h (fst l) (snd l)"
    and srt': "sorted_wrt (<) (map (\<lambda>a. key (h a)) (fst l))"
    by (simp_all add: lane_ok_def)
  from lane_ok_distinct[OF ll] have dl: "distinct (fst l)" .
  from si have "l \<in> set lv" by (simp add: l_def)
  from sp[OF this] have spl: "spans_ok True h K (fst l)" .
  from i(1) have "u \<in> set lv" by (simp add: u_def)
  from sp[OF this] have spu: "spans_ok True h K (fst u)" .
  from lk m d have a': "a' \<in> set (fst l)" "key (h a') = key (h a)"
    by (auto simp: links_def h_def)
  from a'(1) obtain p1 q where q: "fst l = p1 @ a' # q" by (auto dest: split_list)
  from m obtain pre post where pp: "fst u = pre @ a # post" by (auto dest: split_list)
  show ?thesis
  proof (cases post)
    case Nil
    from chain_mid[of h pre a post "snd u"] ch pp Nil r have "b = snd u" by (simp add: h_def)
    with lk d' have b': "b' = snd l" by (simp add: links_def h_def)
    from spu pp Nil have "spans_ok True h K (pre @ [a])" by simp
    from spans_suffix[OF this] have ua: "span_sl (h a) = int (length K) + 1 - cnt K (key (h a))"
      by simp
    from spl q have "spans_ok True h K (p1 @ a' # q)" by simp
    from spans_sum_to_end[OF spans_suffix[OF this]] a'(2) ua
    have su: "sum_list (map (\<lambda>x. span_sl (h x)) (a' # q)) = span_sl (h a)" by simp
    from ch' q have c: "chain h (p1 @ a' # q @ []) (snd l)" by simp
    from tn q have "snd l \<notin> set (a' # q)" by simp
    from sumSpans_chain[OF c _ this, of 0] su b' show ?thesis by (simp add: h_def)
  next
    case (Cons b0 post')
    from chain_mid[of h pre a post "snd u"] ch pp Cons r have b0: "b0 = b" by (simp add: h_def)
    with pp Cons have bu: "b \<in> set (fst u)" by simp
    with lk d' have b': "b' \<in> set (fst l)" "key (h b') = key (h b)"
      by (auto simp: links_def h_def)
    from srt pp Cons b0 have lt: "key (h a) < key (h b)" by (auto simp: sorted_wrt_append)
    with a'(2) b'(2) have lt': "key (h a') < key (h b')" by simp
    from srt' q have "\<forall>x \<in> set p1. key (h x) < key (h a')" by (auto simp: sorted_wrt_append)
    with lt' have "b' \<notin> set p1" by (auto dest: less_asym)
    moreover from lt' have "b' \<noteq> a'" by auto
    ultimately have "b' \<in> set q" using b'(1) q by auto
    then obtain mid p3 where mq: "q = mid @ b' # p3" by (auto dest: split_list)
    from spans_mid[of True h K pre a b post'] spu pp Cons b0
    have ua: "span_sl (h a) = cnt K (key (h b)) - cnt K (key (h a))" by simp
    from spl q mq have "spans_ok True h K (p1 @ a' # mid @ b' # p3)" by simp
    from spans_sum_segment[OF this] a'(2) b'(2) ua
    have su: "sum_list (map (\<lambda>x. span_sl (h x)) (a' # mid)) = span_sl (h a)" by simp
    from ch' q mq have c: "chain h (p1 @ a' # mid @ b' # p3) (snd l)" by simp
    from dl q mq have "b' \<notin> set (a' # mid)" by auto
    from sumSpans_chain[OF c _ this, of 0] su show ?thesis by (simp add: h_def)
  qed
qed

lemma lane_right_in:
  assumes "lane_ok h l" "a \<in> set (fst l)"
  shows "\<exists>b. right (h a) = Some b \<and> b \<in> nodes l"
proof -
  from assms(2) obtain pre post where sp: "fst l = pre @ a # post" by (auto dest: split_list)
  from assms(1) have "chain h (fst l) (snd l)" by (simp add: lane_ok_def)
  with sp chain_mid[of h pre a post "snd l"]
  have "right (h a) = Some (case post of [] \<Rightarrow> snd l | b # _ \<Rightarrow> b)" by simp
  moreover have "(case post of [] \<Rightarrow> snd l | b # _ \<Rightarrow> b) \<in> nodes l"
    using sp by (auto simp: nodes_def split: list.splits)
  ultimately show ?thesis by blast
qed

lemma walk_rel:
  assumes "lanes_ok h lv" "fst (hd lv) = pre @ a # post" "key (h a) < Some k"
    and "agree h h' lv"
  shows "\<exists>tr. tr \<noteq> []
      \<and> findPath_loop h k path (int (length lv) - 1) rnk a = Some (Inr (path @ tr))
      \<and> findPath_loop h' k path' (int (length lv) - 1) rnk a = Some (Inr (path' @ tr))
      \<and> node (last tr) \<in> set (fst (last lv))"
  using assms
proof (induction lv arbitrary: pre a post path path' rnk)
  case Nil
  then show ?case by simp
next
  case (Cons u rest)
  let ?L = "int (length rest)"
  have lane: "lane_ok h u" using Cons.prems(1) by simp
  from Cons.prems(4) have ag: "\<And>x. x \<in> nodes u \<Longrightarrow>
      right (h' x) = right (h x) \<and> key (h' x) = key (h x)
      \<and> span_sl (h' x) = span_sl (h x) \<and> down (h' x) = down (h x)"
    by (simp add: agree_def)
  from Cons.prems(4) have ag': "agree h h' rest" by (simp add: agree_def)
  have descend: "\<exists>tr. tr \<noteq> []
      \<and> (case down (h a) of
         Some d \<Rightarrow> findPath_loop h k (path @ [\<lparr>level = ?L, node = a, rank = rnk\<rparr>]) (?L - 1) rnk d
       | None \<Rightarrow> Some (Inr (path @ [\<lparr>level = ?L, node = a, rank = rnk\<rparr>])))
        = Some (Inr (path @ tr))
      \<and> (case down (h a) of
         Some d \<Rightarrow> findPath_loop h' k (path' @ [\<lparr>level = ?L, node = a, rank = rnk\<rparr>]) (?L - 1) rnk d
       | None \<Rightarrow> Some (Inr (path' @ [\<lparr>level = ?L, node = a, rank = rnk\<rparr>])))
        = Some (Inr (path' @ tr))
      \<and> node (last tr) \<in> set (fst (last (u # rest)))"
    if ap: "approach h k u a" for a path path' rnk
  proof (cases rest)
    case Nil
    with Cons.prems(1) ap have "down (h a) = None" by (auto simp: approach_def)
    moreover from ap have "a \<in> set (fst u)" by (simp add: approach_def)
    ultimately show ?thesis using Nil
      by (intro exI[of _ "[\<lparr>level = 0, node = a, rank = rnk\<rparr>]"]) simp
  next
    case (Cons l rest')
    let ?pe = "\<lparr>level = ?L, node = a, rank = rnk\<rparr>"
    from Cons.prems(1) Cons have lk: "links h u l" and lo: "lanes_ok h rest" by auto
    from lk ap obtain d where d: "d \<in> set (fst l)" "down (h a) = Some d" "key (h d) = key (h a)"
      by (auto simp: links_def approach_def)
    from d(1) obtain pre' post' where sp: "fst l = pre' @ d # post'" by (auto dest: split_list)
    from ap d(3) have dk: "key (h d) < Some k" by (simp add: approach_def)
    from sp Cons have sp': "fst (hd rest) = pre' @ d # post'" by simp
    from Cons.IH[OF lo sp' dk ag', of "path @ [?pe]" rnk "path' @ [?pe]"]
    obtain tr' where r: "tr' \<noteq> []"
      "findPath_loop h k (path @ [?pe]) (?L - 1) rnk d = Some (Inr ((path @ [?pe]) @ tr'))"
      "findPath_loop h' k (path' @ [?pe]) (?L - 1) rnk d = Some (Inr ((path' @ [?pe]) @ tr'))"
      "node (last tr') \<in> set (fst (last rest))"
      by blast
    from Cons have "last (u # rest) = last rest" by simp
    with r d(2) show ?thesis
      by (intro exI[of _ "?pe # tr'"]) simp
  qed
  show ?case using Cons.prems(2,3)
  proof (induction post arbitrary: pre a path path' rnk)
    case Nil
    from lane Nil have r: "right (h a) = Some (snd u)" and kt: "key (h (snd u)) = None"
      by (auto simp: lane_ok_def dest: chain_mid)
    from Nil have "a \<in> nodes u" by (simp add: nodes_def)
    from ag[OF this] r have r': "right (h' a) = Some (snd u)" and da: "down (h' a) = down (h a)"
      by simp_all
    have "snd u \<in> nodes u" by (simp add: nodes_def)
    from ag[OF this] kt have kt': "key (h' (snd u)) = None" by simp
    from Nil r kt have "approach h k u a" by (auto simp: approach_def)
    from descend[OF this, of path rnk path'] show ?case
      by (simp add: findPath_loop_step[where h=h and a=a, OF r]
          findPath_loop_step[where h=h' and a=a, OF r'] kt kt' da)
  next
    case (Cons b post')
    let ?pe = "\<lparr>level = ?L, node = a, rank = rnk\<rparr>"
    from lane Cons.prems have r: "right (h a) = Some b"
      by (auto simp: lane_ok_def dest: chain_mid)
    from lane Cons.prems have lt: "key (h a) < key (h b)"
      by (auto simp: lane_ok_def sorted_wrt_append)
    from Cons.prems have "a \<in> nodes u" "b \<in> nodes u" by (simp_all add: nodes_def)
    from ag[OF this(1)] ag[OF this(2)] r have r': "right (h' a) = Some b"
      and da: "down (h' a) = down (h a)" and sa: "span_sl (h' a) = span_sl (h a)"
      and kb: "key (h' b) = key (h b)"
      by simp_all
    show ?case
    proof (cases "key (h b) < Some k")
      case True
      from lt have nn: "key (h b) \<noteq> None" by (cases "key (h b)") auto
      from Cons.prems have "fst (hd (u # rest)) = (pre @ [a]) @ b # post'" by simp
      from Cons.IH[OF this True, of "path @ [?pe]" "rnk + span_sl (h a)" "path' @ [?pe]"]
      obtain tr' where r'': "tr' \<noteq> []"
        "findPath_loop h k (path @ [?pe]) ?L (rnk + span_sl (h a)) b = Some (Inr ((path @ [?pe]) @ tr'))"
        "findPath_loop h' k (path' @ [?pe]) ?L (rnk + span_sl (h a)) b = Some (Inr ((path' @ [?pe]) @ tr'))"
        "node (last tr') \<in> set (fst (last (u # rest)))"
        by auto
      then show ?thesis using True nn
        by (intro exI[of _ "?pe # tr'"])
          (simp add: findPath_loop_step[where h=h and a=a, OF r]
            findPath_loop_step[where h=h' and a=a, OF r'] kb sa)
    next
      case False
      with Cons.prems r have "approach h k u a" by (auto simp: approach_def)
      from descend[OF this, of path rnk path'] show ?thesis using False
        by (simp add: findPath_loop_step[where h=h and a=a, OF r]
            findPath_loop_step[where h=h' and a=a, OF r'] kb da)
    qed
  qed
qed

lemma walk_singleton:
  assumes "lanes_ok h (u # l # rest)" "fst u = [a]"
  shows "findPath_loop h k path lvl rnk a
       = findPath_loop h k (path @ [\<lparr>level = lvl, node = a, rank = rnk\<rparr>]) (lvl - 1) rnk (hd (fst l))"
proof -
  from assms(1) have lu: "lane_ok h u" and lk: "links h u l" and ll: "lane_ok h l" by auto
  from lu assms(2) have r: "right (h a) = Some (snd u)" and kt: "key (h (snd u)) = None"
    and ka: "key (h a) = None"
    by (auto simp: lane_ok_def)
  from lk assms(2) obtain d where d: "d \<in> set (fst l)" "down (h a) = Some d" "key (h d) = key (h a)"
    by (auto simp: links_def)
  from lane_head_unique[OF ll d(1)] d(3) ka have "d = hd (fst l)" by simp
  with d(2) show ?thesis
    by (simp add: findPath_loop_step[where h=h and a=a, OF r] kt)
qed

lemma walk_new_lanes:
  assumes "lanes_ok h (nl @ lv)" "\<forall>l \<in> set nl. \<exists>a. fst l = [a]" "lv \<noteq> []"
  shows "\<exists>extra. findPath_loop h k path (int (length (nl @ lv)) - 1) rnk (hd (fst (hd (nl @ lv))))
       = findPath_loop h k (path @ extra) (int (length lv) - 1) rnk (hd (fst (hd lv)))"
  using assms
proof (induction nl arbitrary: path)
  case Nil
  show ?case by (intro exI[of _ "[]"]) simp
next
  case (Cons u nl)
  from Cons.prems(2) obtain a where a: "fst u = [a]" by auto
  from Cons.prems(3) obtain l rest where lr: "nl @ lv = l # rest" by (cases "nl @ lv") auto
  from Cons.prems(1) lr have lo: "lanes_ok h (u # l # rest)" by simp
  then have lo': "lanes_ok h (nl @ lv)" using lr by simp
  let ?L = "int (length ((u # nl) @ lv)) - 1"
  let ?pe = "\<lparr>level = ?L, node = a, rank = rnk\<rparr>"
  from Cons.IH[OF lo' _ Cons.prems(3), of "path @ [?pe]"] Cons.prems(2) obtain extra where
    e: "findPath_loop h k (path @ [?pe]) (int (length (nl @ lv)) - 1) rnk (hd (fst (hd (nl @ lv))))
       = findPath_loop h k ((path @ [?pe]) @ extra) (int (length lv) - 1) rnk (hd (fst (hd lv)))"
    by auto
  have "?L - 1 = int (length (nl @ lv)) - 1" by simp
  with walk_singleton[OF lo a, of k path ?L rnk] lr a e
  have "findPath_loop h k path ?L rnk (hd (fst (hd ((u # nl) @ lv))))
      = findPath_loop h k (path @ ?pe # extra) (int (length lv) - 1) rnk (hd (fst (hd lv)))"
    by simp
  then show ?case by blast
qed

lemma replace_ranks:
  assumes inv: "inv sp ex s lv" and pr: "k \<in> fst ` set (content (store s) lv)"
    and ins: "insertWithLevel H k d s = Some (Inr s')"
  shows "findRankOfKey s' k' = findRankOfKey s k'"
proof -
  define s1 where "s1 = addLevelsAccordingToNewLevelsCount H s"
  define h where "h = store s"
  define h' where "h' = store s'"
  from inv have wf: "wf s lv" by (simp add: inv_def)
  from wf have ne: "lv \<noteq> []" and lo: "lanes_ok h lv" and hd: "head s = hd (fst (hd lv))"
    and n: "levelsCount s = int (length lv)"
    and bd: "\<And>l x. l \<in> set lv \<Longrightarrow> x \<in> nodes l \<Longrightarrow> x < fresh s"
    by (auto simp: wf_def lanes_ok_iff h_def)
  from addLevels_inv[OF inv, of H] obtain lv1 nl where
    g: "inv sp ex s1 lv1" "content (store s1) lv1 = content (store s) lv"
      "\<forall>x < fresh s. store s1 x = store s x"
      "lv1 = nl @ lv" "\<forall>l \<in> set nl. \<exists>a. fst l = [a]"
    unfolding s1_def by blast
  from g(1) have wf1: "wf s1 lv1" by (simp add: inv_def)
  from pr have "Some k \<in> lane_keys (store s1) (last lv1)" by (simp add: present_iff[OF wf1] g(2))
  from insert_rest_replace[OF g(1) this, of H d] obtain r where
    r: "insert_rest H k d s1 = Some (Inr (s1\<lparr>store := (store s1)(r := (store s1 r)\<lparr>data := Some d\<rparr>)\<rparr>))"
      "inv sp ex (s1\<lparr>store := (store s1)(r := (store s1 r)\<lparr>data := Some d\<rparr>)\<rparr>) lv1"
    by blast
  from ins r(1) have s': "s' = s1\<lparr>store := (store s1)(r := (store s1 r)\<lparr>data := Some d\<rparr>)\<rparr>"
    by (simp add: insertWithLevel_def s1_def)
  from r(2) have wf': "wf s' lv1" by (simp add: inv_def s')
  then have lo': "lanes_ok h' (nl @ lv)" and hd': "head s' = hd (fst (hd (nl @ lv)))"
    and n': "levelsCount s' = int (length (nl @ lv))"
    by (simp_all add: wf_def h'_def g(4))
  have f: "right (h' x) = right (store s1 x) \<and> key (h' x) = key (store s1 x)
      \<and> span_sl (h' x) = span_sl (store s1 x) \<and> down (h' x) = down (store s1 x)" for x
    by (simp add: h'_def s')
  have ag: "agree h h' lv"
    unfolding agree_def
  proof (intro ballI)
    fix l x assume "l \<in> set lv" "x \<in> nodes l"
    from bd[OF this] g(3) have "store s1 x = h x" by (simp add: h_def)
    with f[of x] show "right (h' x) = right (h x) \<and> key (h' x) = key (h x)
      \<and> span_sl (h' x) = span_sl (h x) \<and> down (h' x) = down (h x)" by simp
  qed
  from lo ne have "lane_ok h (hd lv)" by (cases lv) auto
  then have fne: "fst (hd lv) \<noteq> []" and k0: "key (h (head s)) = None"
    using hd by (auto simp: lane_ok_def)
  then have sp: "fst (hd lv) = [] @ head s # tl (fst (hd lv))" using hd by simp
  have lt: "key (h (head s)) < Some k'" using k0 by simp
  from walk_new_lanes[OF lo' g(5) ne, of k' "[]" "- 1"] obtain extra where
    e: "findPath_loop h' k' [] (int (length (nl @ lv)) - 1) (- 1) (hd (fst (hd (nl @ lv))))
       = findPath_loop h' k' extra (int (length lv) - 1) (- 1) (hd (fst (hd lv)))"
    by auto
  from walk_rel[OF lo sp lt ag, of "[]" "- 1" extra] obtain tr where
    t: "tr \<noteq> []" "findPath_loop h k' [] (int (length lv) - 1) (- 1) (head s) = Some (Inr tr)"
      "findPath_loop h' k' extra (int (length lv) - 1) (- 1) (head s) = Some (Inr (extra @ tr))"
      "node (last tr) \<in> set (fst (last lv))"
    by auto
  from t(2) n have p: "findPath s k' = Some (Inr tr)" by (simp add: findPath_def h_def)
  from e t(3) hd hd' n' have p': "findPath s' k' = Some (Inr (extra @ tr))"
    by (simp add: findPath_def h'_def)
  define i where "i = length lv - 1"
  from ne have i: "i < length lv" "last lv = lv ! i" by (simp_all add: i_def last_conv_nth)
  from wf_lane(1)[OF wf i(1)] i(2) have ll: "lane_ok h (last lv)" by (simp add: h_def)
  from ne have m: "last lv \<in> set lv" by simp
  from lane_right_in[OF ll t(4)] obtain b where
    b: "right (h (node (last tr))) = Some b" "b \<in> nodes (last lv)" by blast
  from t(4) have "node (last tr) \<in> nodes (last lv)" by (simp add: nodes_def)
  with ag m b(1) have b': "right (h' (node (last tr))) = Some b" by (auto simp: agree_def)
  from ag m b(2) have kb: "key (h' b) = key (h b)" by (auto simp: agree_def)
  from p p' t(1) b b' kb show ?thesis
    by (simp add: findRankOfKey_def lastElement_def h_def[symmetric] h'_def[symmetric])
qed

lemma with_index_simps [simp]:
  "with_index None s = None"
  "with_index (Some (Inl e)) s = Some (Inl e)"
  "with_index (Some (Inr v)) s = Some (Inr (v, s))"
  by (simp_all add: with_index_def)

lemma with_index_Some: "\<exists>y. with_index (Some r) s = Some y"
  by (cases r) simp_all

lemma with_index_Inr:
  "with_index r s = Some (Inr (v, s')) \<Longrightarrow> s' = s \<and> r = Some (Inr v)"
  by (auto simp: with_index_def split: option.splits sum.splits)

lemmas action_defs = bind_a_def return_a_def raise_a_def get_field_def this_field_def deref_def

lemma findPath_while_sound:
  "findPath_while k path lvl rnk nxt s = Some y \<Longrightarrow>
     with_index (findPath_loop (store s) k path lvl rnk nxt) s = Some y"
proof (induct rule: findPath_while.raw_induct[rotated 1, consumes 1])
  case (1 f k path lvl rnk nxt s y)
  from 1(2) show ?case
    by (subst findPath_loop.simps)
      (auto simp: action_defs Let_def split: option.splits if_splits intro: 1(1))
qed

lemma findPath_while_complete:
  "findPath_loop h k path lvl rnk nxt = Some r \<Longrightarrow> h = store s \<Longrightarrow>
     findPath_while k path lvl rnk nxt s = with_index (Some r) s"
proof (induct arbitrary: s rule: findPath_loop.raw_induct[rotated 1, consumes 1])
  case (1 f h k path lvl rnk nxt r)
  from 1(2,3) show ?case
    by (subst findPath_while.simps)
      (auto simp: action_defs Let_def split: option.splits if_splits intro: 1(1))
qed

lemma findPath_while_eq:
  "findPath_while k path lvl rnk nxt s = with_index (findPath_loop (store s) k path lvl rnk nxt) s"
proof (cases "findPath_loop (store s) k path lvl rnk nxt")
  case None
  have "findPath_while k path lvl rnk nxt s = None"
  proof (rule ccontr)
    assume "findPath_while k path lvl rnk nxt s \<noteq> None"
    then obtain y where "findPath_while k path lvl rnk nxt s = Some y" by blast
    from findPath_while_sound[OF this] None show False by simp
  qed
  with None show ?thesis by simp
next
  case (Some r)
  from findPath_while_complete[OF Some refl] Some show ?thesis by simp
qed

lemma findByRank_while_sound:
  "findByRank_while rnk rankCounter nxt s = Some y \<Longrightarrow>
     with_index (findByRank_loop (store s) rnk rankCounter nxt) s = Some y"
proof (induct rule: findByRank_while.raw_induct[rotated 1, consumes 1])
  case (1 f rnk rankCounter nxt s y)
  from 1(2) show ?case
    by (subst findByRank_loop.simps)
      (auto simp: action_defs split: option.splits if_splits intro: 1(1))
qed

lemma findByRank_while_complete:
  "findByRank_loop h rnk rankCounter nxt = Some r \<Longrightarrow> h = store s \<Longrightarrow>
     findByRank_while rnk rankCounter nxt s = with_index (Some r) s"
proof (induct arbitrary: s rule: findByRank_loop.raw_induct[rotated 1, consumes 1])
  case (1 f h rnk rankCounter nxt r)
  from 1(2,3) show ?case
    by (subst findByRank_while.simps)
      (auto simp: action_defs split: option.splits if_splits intro: 1(1))
qed

lemma findByRank_while_eq:
  "findByRank_while rnk rankCounter nxt s
     = with_index (findByRank_loop (store s) rnk rankCounter nxt) s"
proof (cases "findByRank_loop (store s) rnk rankCounter nxt")
  case None
  have "findByRank_while rnk rankCounter nxt s = None"
  proof (rule ccontr)
    assume "findByRank_while rnk rankCounter nxt s \<noteq> None"
    then obtain y where "findByRank_while rnk rankCounter nxt s = Some y" by blast
    from findByRank_while_sound[OF this] None show False by simp
  qed
  with None show ?thesis by simp
next
  case (Some r)
  from findByRank_while_complete[OF Some refl] Some show ?thesis by simp
qed

lemma findPath_a_eq: "findPath_a k s = with_index (findPath s k) s"
  by (simp add: findPath_a_def findPath_def bind_a_def this_field_def findPath_while_eq)

lemma find_a_eq: "find_a k s = with_index (find_sl s k) s"
  by (auto simp: find_a_def find_sl_def bottomRight_right_def action_defs findPath_a_eq
      with_index_def split: option.splits sum.splits)

lemma findRankOfKey_a_eq: "findRankOfKey_a k s = with_index (findRankOfKey s k) s"
  by (auto simp: findRankOfKey_a_def findRankOfKey_def bottomRight_right_def action_defs
      findPath_a_eq with_index_def split: option.splits sum.splits)

lemma findByRank_a_eq: "findByRank_a rnk s = with_index (findByRank s rnk) s"
  by (auto simp: findByRank_a_def findByRank_def action_defs findByRank_while_eq
      with_index_def split: option.splits sum.splits)

lemma call_eq: "call q s = with_index (answer q s) s"
  by (cases q) (simp_all add: find_a_eq findRankOfKey_a_eq findByRank_a_eq)

text \<open>
  The same translation of the loop body of \<open>delete\<close> is the function \<open>delete_step\<close>, which
  changes the index.
\<close>

lemma delete_step_a_eq:
  "delete_step_a k pathElement s =
     (case delete_step k pathElement s of
        Inl e \<Rightarrow> Some (Inl e)
      | Inr s' \<Rightarrow> Some (Inr ((), s')))"
  by (simp add: delete_step_a_def delete_step_def action_defs set_field_def Let_def
      split: option.splits)

text \<open>
  C6. The claim bounds the height drawn by \<open>_randomLevel\<close> by 32. The loop of the source tests
  \<open>level <= 32\<close> before it increments, so a run of 32 successful coin flips leaves the loop
  with height 33.
\<close>

theorem randomLevel_after_32_heads: "randomLevel (\<lambda>i. 1 / 2) = 33"
  by (simp add: randomLevel_def)

section \<open>Queries on concrete indexes\<close>

text \<open>
  C5. The claim asks \<open>byRank(-1)\<close> to report not-found. After one insertion of key 10 with
  payload 7 and tower height 1, \<open>findByRank(-1)\<close> skips its loop, stands on the head of the
  only level and returns the payload of the head's right neighbour.
\<close>

theorem findByRank_minus_one_returns_payload:
  "after [Insert 10 7 (\<lambda>i. 0)] (\<lambda>s. findByRank s (- 1)) = Some (Inr (Some 7))"
  by code_simp

text \<open>
  C1. The claim asks \<open>byRank(findRankOfKey(k))\<close> to return the payload \<open>find(k)\<close> returns,
  after every sequence of inserts and deletes. After inserting keys 1 and 3 and deleting the
  key 2, which was never inserted, \<open>find(3)\<close> returns the payload 33 and \<open>findRankOfKey(3)\<close>
  returns 1, but \<open>findByRank(1)\<close> finds nothing: \<open>delete\<close> has decremented the span of the
  node of key 1.
\<close>

theorem round_trip_fails_after_delete_of_absent_key:
  "after [Insert 1 11 (\<lambda>i. 0), Insert 3 33 (\<lambda>i. 0), Delete 2] (\<lambda>s. find_sl s 3)
       = Some (Inr (Some 33))
   \<and> after [Insert 1 11 (\<lambda>i. 0), Insert 3 33 (\<lambda>i. 0), Delete 2] (\<lambda>s. findRankOfKey s 3)
       = Some (Inr (Some 1))
   \<and> after [Insert 1 11 (\<lambda>i. 0), Insert 3 33 (\<lambda>i. 0), Delete 2] (\<lambda>s. findByRank s 1)
       = Some (Inr None)"
  by code_simp

section \<open>Queries leave the index unchanged\<close>

text \<open>
  C9. A call of \<open>find\<close>, \<open>findRankOfKey\<close> or \<open>findByRank\<close>, translated as a transformer of the
  index, that returns a value returns it with the index it was called on: the store with
  every node's key, data, span, right and down link, the head, the level count and the
  element count are as before the call; the value is the one the method computes on that
  index. On every index reached from the constructor by inserts and deletes the call does
  return.
\<close>

theorem queries_do_not_modify:
  "(\<forall>s v s'. call q s = Some (Inr (v, s')) \<longrightarrow> s' = s \<and> answer q s = Some (Inr v))
   \<and> (\<exists>s v. run ops SkipList_constructor = Some (Inr s) \<and> call q s = Some (Inr (v, s)))"
proof -
  from run_all[of ops] obtain s lv where
    r: "run ops SkipList_constructor = Some (Inr s)" "wf s lv" by blast
  from answer_wf[OF r(2), of q] obtain v where "answer q s = Some (Inr v)" by blast
  then have "call q s = Some (Inr (v, s))" by (simp add: call_eq)
  with r(1) have "\<exists>s v. run ops SkipList_constructor = Some (Inr s) \<and> call q s = Some (Inr (v, s))"
    by blast
  moreover have "\<forall>s v s'. call q s = Some (Inr (v, s')) \<longrightarrow> s' = s \<and> answer q s = Some (Inr v)"
    by (auto simp: call_eq dest: with_index_Inr)
  ultimately show ?thesis by blast
qed

theorem queries_do_not_modify_witness:
  "call (Find 5) SkipList_constructor = Some (Inr (None, SkipList_constructor))
   \<and> answer (Find 5) SkipList_constructor = Some (Inr None)
   \<and> (\<exists>s v. run [Insert 5 55 (\<lambda>i. 0)] SkipList_constructor = Some (Inr s)
         \<and> call (Find 5) s = Some (Inr (v, s)))"
proof -
  have a: "answer (Find 5) SkipList_constructor = Some (Inr None)"
    by (simp add: find_sl_def findPath_def findPath_loop.simps SkipList_constructor_def
        lastElement_def)
  have h: "call (Find 5) SkipList_constructor = Some (Inr (None, SkipList_constructor))"
    unfolding call_eq a by simp
  from queries_do_not_modify[of "Find 5" "[Insert 5 55 (\<lambda>i. 0)]"] h show ?thesis by blast
qed

section \<open>Ranks\<close>

text \<open>
  C2 says that after every sequence of inserts and deletes \<open>findRankOfKey\<close> returns \<open>i\<close> for
  the \<open>i\<close>-th smallest surviving key, counting from 0. After inserting keys 1, 3 and 4 and
  deleting key 1 twice, keys 3 and 4 survive and key 1 is gone, but the rank reported for
  key 4, the second smallest, is 0: the second \<open>delete\<close> of key 1, then absent, has
  decremented the span of the head.
\<close>

theorem rank_wrong_after_second_delete:
  "after [Insert 1 11 (\<lambda>i. 0), Insert 3 33 (\<lambda>i. 0), Insert 4 44 (\<lambda>i. 0), Delete 1, Delete 1]
      (\<lambda>s. find_sl s 1) = Some (Inr None)
   \<and> after [Insert 1 11 (\<lambda>i. 0), Insert 3 33 (\<lambda>i. 0), Insert 4 44 (\<lambda>i. 0), Delete 1, Delete 1]
      (\<lambda>s. find_sl s 3) = Some (Inr (Some 33))
   \<and> after [Insert 1 11 (\<lambda>i. 0), Insert 3 33 (\<lambda>i. 0), Insert 4 44 (\<lambda>i. 0), Delete 1, Delete 1]
      (\<lambda>s. find_sl s 4) = Some (Inr (Some 44))
   \<and> after [Insert 1 11 (\<lambda>i. 0), Insert 3 33 (\<lambda>i. 0), Insert 4 44 (\<lambda>i. 0), Delete 1, Delete 1]
      (\<lambda>s. findRankOfKey s 3) = Some (Inr (Some 0))
   \<and> after [Insert 1 11 (\<lambda>i. 0), Insert 3 33 (\<lambda>i. 0), Insert 4 44 (\<lambda>i. 0), Delete 1, Delete 1]
      (\<lambda>s. findRankOfKey s 4) = Some (Inr (Some 0))"
  by code_simp

text \<open>
  Without deletes of absent keys the ranks are right. After every sequence of inserts and
  of deletes of keys that are stored when they are deleted, \<open>findRankOfKey\<close> applied to the
  \<open>i\<close>-th smallest surviving key returns \<open>i\<close>, counting from 0. The surviving keys, in
  increasing order, are the keys of \<open>model ops\<close>.
\<close>

theorem rank_of_ith_smallest_key:
  assumes "deletes_stored ops []" and "i < length (model ops)"
  shows "after ops (\<lambda>s. findRankOfKey s (fst (model ops ! i))) = Some (Inr (Some (int i)))"
proof -
  from run_stored[OF assms(1)] obtain s lv where
    r: "run ops SkipList_constructor = Some (Inr s)" "inv True False s lv"
      "content (store s) lv = model ops"
    by blast
  from r(2) have wf: "wf s lv" by (simp add: inv_def)
  from content_keys(2)[OF wf] have srt: "sorted_wrt (<) (map fst (model ops))" by (simp add: r(3))
  from assms(2) have m: "fst (model ops ! i) \<in> fst ` set (model ops)" by simp
  from rank_wf[OF r(2), of "fst (model ops ! i)"] m sorted_index_count[OF srt assms(2)]
  have "findRankOfKey s (fst (model ops ! i)) = Some (Inr (Some (int i)))"
    by (simp add: r(3))
  with r(1) show ?thesis by (simp add: after_def)
qed

theorem rank_of_ith_smallest_key_witness:
  "deletes_stored [Insert 50 50 (\<lambda>i. 0), Insert 10 10 (\<lambda>i. if i < 1 then 7 / 10 else 0),
       Insert 30 30 (\<lambda>i. 0), Delete 30] []
   \<and> 1 < length (model [Insert 50 50 (\<lambda>i. 0), Insert 10 10 (\<lambda>i. if i < 1 then 7 / 10 else 0),
       Insert 30 30 (\<lambda>i. 0), Delete 30])
   \<and> after [Insert 50 50 (\<lambda>i. 0), Insert 10 10 (\<lambda>i. if i < 1 then 7 / 10 else 0),
       Insert 30 30 (\<lambda>i. 0), Delete 30] (\<lambda>s. findRankOfKey s 50) = Some (Inr (Some 1))"
proof -
  let ?W = "[Insert 50 50 (\<lambda>i. 0), Insert 10 10 (\<lambda>i. if i < 1 then 7 / 10 else 0),
       Insert 30 30 (\<lambda>i. 0), Delete 30]"
  have m: "model ?W = [(10, 10), (50, 50)]" by (simp add: model_def model_delete_def)
  have h1: "deletes_stored ?W []" by simp
  have h2: "1 < length (model ?W)" unfolding m by simp
  from rank_of_ith_smallest_key[OF h1 h2] have
    "after ?W (\<lambda>s. findRankOfKey s (fst (model ?W ! 1))) = Some (Inr (Some 1))" by simp
  then have "after ?W (\<lambda>s. findRankOfKey s 50) = Some (Inr (Some 1))" unfolding m by simp
  with h1 h2 show ?thesis by blast
qed

section \<open>Deleting a stored key\<close>

text \<open>
  C4 says of every index and every stored key \<open>k\<close> that \<open>delete\<close> of \<open>k\<close> lowers by exactly 1
  the rank \<open>findRankOfKey\<close> reports for every stored key greater than \<open>k\<close>. On an index
  that went through a \<open>delete\<close> of a key that was not stored, this fails: with keys 1 and 3
  stored, the delete of the absent key 0 decrements the span of the head, after which key 1
  is still found and the rank reported for key 3 is 0; after the delete of key 1 the rank
  reported for key 3 is 0 again, not 1 less.
\<close>

theorem delete_after_drift_keeps_rank:
  "after [Insert 1 11 (\<lambda>i. 0), Insert 3 33 (\<lambda>i. 0), Delete 0] (\<lambda>s. find_sl s 1)
     = Some (Inr (Some 11))
   \<and> after [Insert 1 11 (\<lambda>i. 0), Insert 3 33 (\<lambda>i. 0), Delete 0] (\<lambda>s. findRankOfKey s 3)
     = Some (Inr (Some 0))
   \<and> after [Insert 1 11 (\<lambda>i. 0), Insert 3 33 (\<lambda>i. 0), Delete 0, Delete 1]
       (\<lambda>s. findRankOfKey s 3)
     = Some (Inr (Some 0))"
  by code_simp

text \<open>
  Without deletes of absent keys the property holds. In every index reached by inserts and
  by deletes of stored keys, deleting a stored key \<open>k\<close> succeeds; afterwards \<open>find\<close> reports
  \<open>k\<close> as not found, the rank reported by \<open>findRankOfKey\<close> for every stored key greater
  than \<open>k\<close> is smaller by exactly 1, and the rank reported for every stored key smaller
  than \<open>k\<close> is what it was.
\<close>

theorem delete_shifts_ranks:
  assumes "deletes_stored ops []" and "k \<in> fst ` set (model ops)"
  shows "\<exists>s s'. run ops SkipList_constructor = Some (Inr s) \<and> delete k s = Some (Inr s')
     \<and> find_sl s' k = Some (Inr None)
     \<and> (\<forall>k' \<in> fst ` set (model ops). \<exists>r. findRankOfKey s k' = Some (Inr (Some r))
          \<and> (k < k' \<longrightarrow> findRankOfKey s' k' = Some (Inr (Some (r - 1))))
          \<and> (k' < k \<longrightarrow> findRankOfKey s' k' = Some (Inr (Some r))))"
proof -
  from run_stored[OF assms(1)] obtain s lv where
    r: "run ops SkipList_constructor = Some (Inr s)" "inv True False s lv"
      "content (store s) lv = model ops"
    by blast
  from r(2) have wf: "wf s lv" by (simp add: inv_def)
  from assms(2) have "Some k \<in> lane_keys (store s) (last lv)"
    by (simp add: present_iff[OF wf] r(3))
  with delete_inv[OF r(2), of k] obtain s' where
    d: "delete k s = Some (Inr s')" "inv True False s' (del_lanes k (store s) lv)"
      "content (store s') (del_lanes k (store s) lv) = model_delete k (model ops)"
    by (auto simp: r(3))
  from d(2) have wf': "wf s' (del_lanes k (store s) lv)" by (simp add: inv_def)
  from find_wf[OF wf', of k] have f: "find_sl s' k = Some (Inr None)"
    by (simp add: d(3) model_delete_map_of)
  from content_keys(2)[OF wf] have "distinct (map fst (model ops))"
    by (simp add: r(3) sorted_less_distinct)
  note c = count_less_remove[OF this assms(2)]
  have "\<exists>r. findRankOfKey s k' = Some (Inr (Some r))
          \<and> (k < k' \<longrightarrow> findRankOfKey s' k' = Some (Inr (Some (r - 1))))
          \<and> (k' < k \<longrightarrow> findRankOfKey s' k' = Some (Inr (Some r)))"
    if k': "k' \<in> fst ` set (model ops)" for k'
  proof -
    from rank_wf[OF r(2), of k'] k' have a:
      "findRankOfKey s k' = Some (Inr (Some (int (length (filter (\<lambda>e. fst e < k') (model ops))))))"
      by (simp add: r(3))
    have b: "findRankOfKey s' k' = Some (Inr (Some (int (length (filter (\<lambda>e. fst e < k') (model ops)))
        - (if k < k' then 1 else 0))))" if "k' \<noteq> k"
    proof -
      from that k' have "k' \<in> fst ` set (model_delete k (model ops))"
        by (simp add: model_delete_keys)
      with rank_wf[OF d(2), of k'] show ?thesis by (simp add: d(3) c)
    qed
    from a b show ?thesis by auto
  qed
  with r(1) d(1) f show ?thesis by blast
qed

theorem delete_shifts_ranks_witness:
  "deletes_stored [Insert 1 11 (\<lambda>i. 0), Insert 2 22 (\<lambda>i. if i < 1 then 7 / 10 else 0), Insert 3 33 (\<lambda>i. 0)] []
   \<and> 2 \<in> fst ` set (model [Insert 1 11 (\<lambda>i. 0), Insert 2 22 (\<lambda>i. if i < 1 then 7 / 10 else 0), Insert 3 33 (\<lambda>i. 0)])
   \<and> (\<exists>s s' r. run [Insert 1 11 (\<lambda>i. 0), Insert 2 22 (\<lambda>i. if i < 1 then 7 / 10 else 0), Insert 3 33 (\<lambda>i. 0)]
            SkipList_constructor = Some (Inr s)
        \<and> delete 2 s = Some (Inr s') \<and> find_sl s' 2 = Some (Inr None)
        \<and> findRankOfKey s 3 = Some (Inr (Some r))
        \<and> findRankOfKey s' 3 = Some (Inr (Some (r - 1))))"
proof -
  let ?W = "[Insert 1 11 (\<lambda>i. 0), Insert 2 22 (\<lambda>i. if i < 1 then 7 / 10 else 0), Insert 3 33 (\<lambda>i. 0)]"
  have m: "model ?W = [(1, 11), (2, 22), (3, 33)]" by (simp add: model_def)
  have h1: "deletes_stored ?W []" by simp
  have h2: "2 \<in> fst ` set (model ?W)" unfolding m by simp
  from delete_shifts_ranks[OF h1 h2] obtain s s' where
    a: "run ?W SkipList_constructor = Some (Inr s)" "delete 2 s = Some (Inr s')"
      "find_sl s' 2 = Some (Inr None)"
    and b: "\<forall>k' \<in> fst ` set (model ?W). \<exists>r. findRankOfKey s k' = Some (Inr (Some r))
          \<and> (2 < k' \<longrightarrow> findRankOfKey s' k' = Some (Inr (Some (r - 1))))
          \<and> (k' < 2 \<longrightarrow> findRankOfKey s' k' = Some (Inr (Some r)))"
    by blast
  have "3 \<in> fst ` set (model ?W)" unfolding m by simp
  with b obtain r where "findRankOfKey s 3 = Some (Inr (Some r))"
    "findRankOfKey s' 3 = Some (Inr (Some (r - 1)))" by fastforce
  with a h1 h2 show ?thesis by blast
qed

section \<open>Null links\<close>

text \<open>
  C10. In every index reached from the constructor by inserts and deletes, a node that a
  traversal from the head can stand on (by \<open>right\<close> and \<open>down\<close> links) and whose \<open>right\<close> link
  is null is the terminator of a level; and \<open>find\<close>, \<open>findRankOfKey\<close> and \<open>findByRank\<close>
  return a value for every argument: they neither run forever nor raise the \<open>TypeError\<close> of
  a read through a null link. The empty operation sequence gives the freshly constructed
  index.
\<close>

theorem reachable_index_has_no_null_right:
  "\<exists>s. run ops SkipList_constructor = Some (Inr s)
     \<and> (\<forall>a \<in> on_chain s. right (store s a) = None \<longrightarrow> a \<in> terminators s)
     \<and> (\<forall>q. \<exists>v. answer q s = Some (Inr v))"
proof -
  from run_all[of ops] obtain s lv where
    r: "run ops SkipList_constructor = Some (Inr s)" "wf s lv" by blast
  from answer_wf[OF r(2)] have "\<forall>q. \<exists>v. answer q s = Some (Inr v)" by blast
  with r(1) null_right_is_terminator[OF r(2)] show ?thesis by blast
qed

theorem reachable_index_has_no_null_right_witness:
  "0 \<in> on_chain SkipList_constructor \<and> right (store SkipList_constructor 0) = None
   \<and> 0 \<in> terminators SkipList_constructor
   \<and> (\<exists>v. findByRank SkipList_constructor 0 = Some (Inr v))"
proof -
  from reachable_index_has_no_null_right[of "[]"] have
    t: "\<forall>a \<in> on_chain SkipList_constructor.
          right (store SkipList_constructor a) = None \<longrightarrow> a \<in> terminators SkipList_constructor"
    and q: "\<forall>q. \<exists>v. answer q SkipList_constructor = Some (Inr v)"
    by simp_all
  have "head SkipList_constructor = 1" "right (store SkipList_constructor 1) = Some 0"
    and n: "right (store SkipList_constructor 0) = None"
    by (simp_all add: SkipList_constructor_def)
  with on_chain.head[of SkipList_constructor] have c: "0 \<in> on_chain SkipList_constructor"
    by (auto intro: on_chain.right)
  from q have "\<exists>v. answer (FindByRank 0) SkipList_constructor = Some (Inr v)" ..
  with t c n show ?thesis by simp
qed

section \<open>Deleting a key that is not stored\<close>

text \<open>
  C7. In every index reached from the constructor by inserts and deletes, \<open>delete\<close> of a key
  \<open>k\<close> that is not stored succeeds and works on one approach point per level: at each of
  them the key of the right neighbour differs from \<open>k\<close>, so no node is unlinked. The index
  after the call is the index before it with the span of each of these nodes decremented by
  1 and nothing else changed; in particular \<open>itemsCount\<close> is what it was.
\<close>

theorem delete_of_absent_key_decrements_spans:
  assumes "k \<notin> fst ` set (model ops)"
  shows "\<exists>s path s'. run ops SkipList_constructor = Some (Inr s)
     \<and> findInsertPath s k = Some (Inr (map Some path))
     \<and> map level path = map int (rev [0..<nat (levelsCount s)])
     \<and> distinct (map node path)
     \<and> (\<forall>pe \<in> set path. \<exists>b. right (store s (node pe)) = Some b \<and> key (store s b) \<noteq> Some k)
     \<and> delete k s = Some (Inr s')
     \<and> s' = s\<lparr>store := \<lambda>x. if x \<in> node ` set path
                             then (store s x)\<lparr>span_sl := span_sl (store s x) - 1\<rparr>
                             else store s x\<rparr>
     \<and> itemsCount s' = itemsCount s"
proof -
  from run_all[of ops] obtain s lv where
    r: "run ops SkipList_constructor = Some (Inr s)" "wf s lv"
      "content (store s) lv = model ops" by blast
  from assms have "k \<notin> fst ` set (content (store s) lv)" by (simp add: r(3))
  from delete_absent[OF r(2) this] obtain path s' where
    d: "findInsertPath s k = Some (Inr (map Some path))"
      "map level path = map int (rev [0..<nat (levelsCount s)])"
      "distinct (map node path)"
      "\<forall>pe \<in> set path. \<exists>b. right (store s (node pe)) = Some b \<and> key (store s b) \<noteq> Some k"
      "delete k s = Some (Inr s')"
      "s' = s\<lparr>store := \<lambda>x. if x \<in> node ` set path
                             then (store s x)\<lparr>span_sl := span_sl (store s x) - 1\<rparr>
                             else store s x\<rparr>"
    by blast
  from d(6) have "itemsCount s' = itemsCount s" by simp
  with r(1) d show ?thesis by blast
qed

theorem delete_of_absent_key_decrements_spans_witness:
  "2 \<notin> fst ` set (model [Insert 1 11 (\<lambda>i. 0), Insert 3 33 (\<lambda>i. if i < 1 then 7 / 10 else 0)])
   \<and> (\<exists>s path s'. run [Insert 1 11 (\<lambda>i. 0), Insert 3 33 (\<lambda>i. if i < 1 then 7 / 10 else 0)] SkipList_constructor = Some (Inr s)
     \<and> findInsertPath s 2 = Some (Inr (map Some path))
     \<and> map level path = map int (rev [0..<nat (levelsCount s)])
     \<and> distinct (map node path)
     \<and> delete 2 s = Some (Inr s')
     \<and> s' = s\<lparr>store := \<lambda>x. if x \<in> node ` set path
                             then (store s x)\<lparr>span_sl := span_sl (store s x) - 1\<rparr>
                             else store s x\<rparr>
     \<and> itemsCount s' = itemsCount s)"
proof -
  let ?W = "[Insert 1 11 (\<lambda>i. 0), Insert 3 33 (\<lambda>i. if i < 1 then 7 / 10 else 0)]"
  have h: "2 \<notin> fst ` set (model ?W)" by (simp add: model_def)
  from delete_of_absent_key_decrements_spans[OF h] h show ?thesis by blast
qed

section \<open>Inserting a stored key again\<close>

text \<open>
  C3, as the claim states it, fails: \<open>insert\<close> draws the tower height and adds the levels the
  height asks for before it looks for the key, so an insert of a stored key can add a level
  and its two nodes. Below, key 10 is stored in an index of one level and three nodes; the
  second insert of key 10 draws height 2 and leaves an index of two levels and five nodes.
\<close>

theorem replace_can_add_a_level:
  "after [Insert 10 7 (\<lambda>i. 0)] (\<lambda>s. find_sl s 10) = Some (Inr (Some 7))
   \<and> after [Insert 10 7 (\<lambda>i. 0)] (\<lambda>s. Some (Inr (levelsCount s, fresh s))) = Some (Inr (1, 3))
   \<and> after [Insert 10 7 (\<lambda>i. 0), Insert 10 8 (\<lambda>i. if i < 1 then 7 / 10 else 0)]
        (\<lambda>s. Some (Inr (levelsCount s, fresh s))) = Some (Inr (2, 5))"
  by code_simp

text \<open>
  C3, amended. In every index reached from the constructor by inserts and deletes, \<open>insert\<close>
  of a stored key \<open>k\<close> with payload \<open>d\<close> succeeds and overwrites the payload in place: among
  the nodes that existed before the call only the node \<open>r\<close> holding \<open>k\<close> changes, and only in
  its data, so no span, key or link of an existing node changes; \<open>itemsCount\<close> is unchanged,
  \<open>find\<close> returns \<open>d\<close> for \<open>k\<close>, and \<open>findRankOfKey\<close> returns for every key what it returned
  before. The level count becomes the maximum of the old level count and the drawn height,
  with two new nodes per added level; when the drawn height does not exceed the level
  count, nothing else than the payload changes.
\<close>

theorem replace_overwrites_payload:
  assumes "k \<in> fst ` set (model ops)"
  shows "\<exists>s r s'. run ops SkipList_constructor = Some (Inr s)
     \<and> insert_sl rnd k d s = Some (Inr s')
     \<and> r < fresh s \<and> key (store s r) = Some k
     \<and> (\<forall>x < fresh s. store s' x = (if x = r then (store s x)\<lparr>data := Some d\<rparr> else store s x))
     \<and> itemsCount s' = itemsCount s
     \<and> levelsCount s' = max (levelsCount s) (randomLevel rnd)
     \<and> fresh s' = fresh s + 2 * nat (randomLevel rnd - levelsCount s)
     \<and> (randomLevel rnd \<le> levelsCount s
          \<longrightarrow> s' = s\<lparr>store := (store s)(r := (store s r)\<lparr>data := Some d\<rparr>)\<rparr>)
     \<and> find_sl s' k = Some (Inr (Some d))
     \<and> (\<forall>k'. findRankOfKey s' k' = findRankOfKey s k')"
proof -
  from run_all[of ops] obtain s lv where
    r: "run ops SkipList_constructor = Some (Inr s)" "wf s lv"
      "content (store s) lv = model ops" by blast
  from r(2) have i0: "inv False False s lv" by (simp add: inv_def)
  from assms have pr: "k \<in> fst ` set (content (store s) lv)" by (simp add: r(3))
  from replace_effect[OF i0 pr, of "randomLevel rnd" d] obtain r0 s' lv' where
    e: "insertWithLevel (randomLevel rnd) k d s = Some (Inr s')"
      "r0 < fresh s" "key (store s r0) = Some k"
      "\<forall>x < fresh s. store s' x = (if x = r0 then (store s x)\<lparr>data := Some d\<rparr> else store s x)"
      "itemsCount s' = itemsCount s"
      "levelsCount s' = max (levelsCount s) (randomLevel rnd)"
      "fresh s' = fresh s + 2 * nat (randomLevel rnd - levelsCount s)"
      "randomLevel rnd \<le> levelsCount s
          \<longrightarrow> s' = s\<lparr>store := (store s)(r0 := (store s r0)\<lparr>data := Some d\<rparr>)\<rparr>"
    and i: "inv False False s' lv'"
    and c: "content (store s') lv' = model_insert k d (model ops)"
    unfolding r(3) by blast
  from i have wf': "wf s' lv'" by (simp add: inv_def)
  from find_wf[OF wf', of k] have f: "find_sl s' k = Some (Inr (Some d))"
    by (simp add: c model_insert_map_of)
  from replace_ranks[OF i0 pr e(1)] have "\<forall>k'. findRankOfKey s' k' = findRankOfKey s k'" by blast
  with r(1) e f show ?thesis unfolding insert_sl_def by blast
qed

theorem replace_overwrites_payload_witness:
  "10 \<in> fst ` set (model [Insert 10 7 (\<lambda>i. 0)])
   \<and> (\<exists>s r s'. run [Insert 10 7 (\<lambda>i. 0)] SkipList_constructor = Some (Inr s)
     \<and> insert_sl (\<lambda>i. 0) 10 8 s = Some (Inr s')
     \<and> r < fresh s \<and> key (store s r) = Some 10
     \<and> s' = s\<lparr>store := (store s)(r := (store s r)\<lparr>data := Some 8\<rparr>)\<rparr>
     \<and> itemsCount s' = itemsCount s
     \<and> find_sl s' 10 = Some (Inr (Some 8))
     \<and> findRankOfKey s' 10 = findRankOfKey s 10)"
proof -
  let ?W = "[Insert 10 7 (\<lambda>i. 0)]"
  have h: "10 \<in> fst ` set (model ?W)" by (simp add: model_def)
  from replace_overwrites_payload[OF h, of "\<lambda>i. 0" 8] obtain s r s' where
    a: "run ?W SkipList_constructor = Some (Inr s)" "insert_sl (\<lambda>i. 0) 10 8 s = Some (Inr s')"
      "r < fresh s" "key (store s r) = Some 10" "itemsCount s' = itemsCount s"
      "find_sl s' 10 = Some (Inr (Some 8))"
      "findRankOfKey s' 10 = findRankOfKey s 10"
    and b: "randomLevel (\<lambda>i. 0) \<le> levelsCount s
          \<longrightarrow> s' = s\<lparr>store := (store s)(r := (store s r)\<lparr>data := Some 8\<rparr>)\<rparr>"
    by blast
  have "randomLevel (\<lambda>i. 0) = 1" by (simp add: randomLevel_def)
  moreover have "after ?W (\<lambda>s. Some (Inr (levelsCount s))) = Some (Inr 1)" by code_simp
  with a(1) have "levelsCount s = 1" by (simp add: after_def)
  ultimately have "s' = s\<lparr>store := (store s)(r := (store s r)\<lparr>data := Some 8\<rparr>)\<rparr>"
    using b by simp
  with h a show ?thesis by blast
qed

section \<open>Sums of spans\<close>

text \<open>
  C8, as the claim states it, fails: the spans of a level add up to one more than the
  element count, since the span of a level's last edge, the one into the terminator, is
  counted too. The freshly constructed index has no element and a head of span 1; after one
  insert the element count is 1 and the spans of the level add up to 2.
\<close>

theorem level_sum_exceeds_element_count:
  "head SkipList_constructor \<in> level_heads SkipList_constructor
   \<and> levelSpanSum (store SkipList_constructor) 0 (head SkipList_constructor) = Some 1
   \<and> itemsCount SkipList_constructor = 0
   \<and> after [Insert 1 11 (\<lambda>i. 0)]
        (\<lambda>s. Some (Inr (levelSpanSum (store s) 0 (head s), itemsCount s))) = Some (Inr (Some 2, 1))"
proof -
  have "levelSpanSum (store SkipList_constructor) 0 (head SkipList_constructor) = Some 1"
    by code_simp
  moreover have "itemsCount SkipList_constructor = 0" by (simp add: SkipList_constructor_def)
  moreover have "after [Insert 1 11 (\<lambda>i. 0)]
        (\<lambda>s. Some (Inr (levelSpanSum (store s) 0 (head s), itemsCount s))) = Some (Inr (Some 2, 1))"
    by code_simp
  ultimately show ?thesis using level_heads.top[of SkipList_constructor] by simp
qed

text \<open>
  \<open>delete\<close> leaves \<open>itemsCount\<close> as it is, so after a delete the count is no longer the
  number of stored keys: the property below is stated for sequences of inserts.
\<close>

lemma itemsCount_after_delete:
  "after [Insert 1 11 (\<lambda>i. 0), Delete 1]
     (\<lambda>s. Some (Inr (find_sl s 1, levelSpanSum (store s) 0 (head s), itemsCount s)))
   = Some (Inr (Some (Inr None), Some 1, 1))"
  by code_simp

text \<open>
  C8, amended. After every sequence of inserts, \<open>itemsCount\<close> is the number of stored keys;
  on every level, the spans met on the traversal from the level's head to its terminator
  add up to \<open>itemsCount + 1\<close>; and the span of a node \<open>a\<close> with right neighbour \<open>b\<close> is the sum
  of the spans met one level down from the node below \<open>a\<close> up to the node below \<open>b\<close>.
\<close>

theorem spans_aggregate_after_inserts:
  assumes "inserts_only ops"
  shows "\<exists>s. run ops SkipList_constructor = Some (Inr s)
     \<and> itemsCount s = int (length (model ops))
     \<and> (\<forall>a \<in> level_heads s. levelSpanSum (store s) 0 a = Some (itemsCount s + 1))
     \<and> (\<forall>a \<in> on_chain s. \<forall>b a' b'. right (store s a) = Some b \<longrightarrow> down (store s a) = Some a'
            \<longrightarrow> down (store s b) = Some b'
            \<longrightarrow> sumSpans (store s) 0 a' b' = Some (span_sl (store s a)))"
proof -
  from run_inserts[OF assms] obtain s lv where
    r: "run ops SkipList_constructor = Some (Inr s)" "inv True True s lv"
      "content (store s) lv = model ops"
    by blast
  from r(2,3) have "itemsCount s = int (length (model ops))" by (simp add: inv_def)
  with r(1) level_sum[OF r(2)] span_aggregates[OF r(2)] show ?thesis by blast
qed

theorem spans_aggregate_after_inserts_witness:
  "inserts_only [Insert 1 11 (\<lambda>i. if i < 1 then 7 / 10 else 0), Insert 5 55 (\<lambda>i. 0)]
   \<and> (\<exists>s. run [Insert 1 11 (\<lambda>i. if i < 1 then 7 / 10 else 0), Insert 5 55 (\<lambda>i. 0)]
             SkipList_constructor = Some (Inr s)
        \<and> itemsCount s = 2
        \<and> levelSpanSum (store s) 0 (head s) = Some 3
        \<and> right (store s 4) = Some 2 \<and> down (store s 4) = Some 5 \<and> down (store s 2) = Some 0
        \<and> sumSpans (store s) 0 5 0 = Some (span_sl (store s 4)))"
proof -
  let ?W = "[Insert 1 11 (\<lambda>i. if i < 1 then 7 / 10 else 0), Insert 5 55 (\<lambda>i. 0)]"
  have h: "inserts_only ?W" by simp
  from spans_aggregate_after_inserts[OF h] obtain s where
    a: "run ?W SkipList_constructor = Some (Inr s)" "itemsCount s = int (length (model ?W))"
      "\<forall>a \<in> level_heads s. levelSpanSum (store s) 0 a = Some (itemsCount s + 1)"
    and b: "\<And>a b a' b'. a \<in> on_chain s \<Longrightarrow> right (store s a) = Some b
        \<Longrightarrow> down (store s a) = Some a' \<Longrightarrow> down (store s b) = Some b'
        \<Longrightarrow> sumSpans (store s) 0 a' b' = Some (span_sl (store s a))"
    by blast
  have "after ?W (\<lambda>s. Some (Inr (head s, right (store s 3), right (store s 4),
           down (store s 4), down (store s 2))))
        = Some (Inr (3, Some 4, Some 2, Some 5, Some 0))"
    by code_simp
  with a(1) have f: "head s = 3" "right (store s 3) = Some 4" "right (store s 4) = Some 2"
    "down (store s 4) = Some 5" "down (store s 2) = Some 0"
    by (simp_all add: after_def)
  from on_chain.head[of s] f(1) have "3 \<in> on_chain s" by simp
  from on_chain.right[OF this f(2)] have "4 \<in> on_chain s" .
  from b[OF this f(3,4,5)] have g: "sumSpans (store s) 0 5 0 = Some (span_sl (store s 4))" .
  have "length (model ?W) = 2" by (simp add: model_def)
  with a(2) have n: "itemsCount s = 2" by simp
  from a(3) level_heads.top[of s] n have "levelSpanSum (store s) 0 (head s) = Some 3" by simp
  with h a(1) n f g show ?thesis by blast
qed

end
